theory Spec2Isabelle
  imports Main "HOL-Library.Word"
begin

section \<open>Data model of the shard control plane (pkg/shard/sharder.go)\<close>

text \<open>
  Shard indices, \<open>numShards\<close> and \<open>numReplicas\<close> are \<open>uint64\<close> in the source and are
  64-bit words here; versions are \<open>int64\<close> and are integers (versions start at
  zero and grow by one per assignment pass, far from the \<open>int64\<close> bound). A Go \<open>map[uint64]bool\<close> that is only ever written with \<open>true\<close> is the set
  of its keys, and \<open>len\<close> of it is \<open>card\<close>.
\<close>

type_synonym shard = "64 word"

record ServerRole =
  roleId :: string
  roleVersion :: int
  Masters :: "shard set"
  Replicas :: "shard set"

record ServerState =
  stateId :: string
  stateAddress :: string
  stateVersion :: int
  Shards :: "shard set"

record FrontendState =
  frontendAddress :: string
  frontendVersion :: int

record ShardAddresses =
  Master :: string
  ReplicaAddresses :: "string set"

record Addresses =
  addressesVersion :: int
  addressesMap :: "shard \<rightharpoonup> ShardAddresses"

record sharder =
  numShards :: "64 word"
  numReplicas :: "64 word"

definition InvalidVersion :: int where
  "InvalidVersion = -1"

definition MaxInt64 :: int where
  "MaxInt64 = 2 ^ 63 - 1"

definition MaxUint64 :: nat where
  "MaxUint64 = 2 ^ 64 - 1"

section \<open>The assignment primitives\<close>

definition hasShard :: "ServerRole \<Rightarrow> shard \<Rightarrow> bool" where
  "hasShard serverRole shard \<longleftrightarrow> shard \<in> Masters serverRole \<or> shard \<in> Replicas serverRole"

definition removeReplica :: "(shard \<Rightarrow> string list) \<Rightarrow> shard \<Rightarrow> string \<Rightarrow> (shard \<Rightarrow> string list)" where
  "removeReplica replicas shard id' =
     replicas(shard := filter (\<lambda>replicaID. id' \<noteq> replicaID) (replicas shard))"

text \<open>
  \<open>assignMaster\<close> returns \<open>false\<close> before it has changed anything, which is \<open>None\<close> here;
  on \<open>true\<close> the result carries the updated role map, the updated shard-to-master map and
  the value left behind the \<open>*masterRolesRemainder\<close> pointer.
\<close>

definition assignMaster ::
  "(string \<rightharpoonup> ServerRole) \<Rightarrow> (shard \<rightharpoonup> string) \<Rightarrow> string \<Rightarrow> shard \<Rightarrow> nat \<Rightarrow> nat
     \<Rightarrow> ((string \<rightharpoonup> ServerRole) \<times> (shard \<rightharpoonup> string) \<times> nat) option" where
  "assignMaster serverRoles masters id' shard masterRolesPerServer masterRolesRemainder =
     (case serverRoles id' of
        None \<Rightarrow> None
      | Some serverRole \<Rightarrow>
          if card (Masters serverRole) > masterRolesPerServer then None
          else if card (Masters serverRole) = masterRolesPerServer \<and> masterRolesRemainder = 0 then None
          else if hasShard serverRole shard then None
          else Some
            (serverRoles(id' \<mapsto> serverRole\<lparr>Masters := insert shard (Masters serverRole)\<rparr>),
             masters(shard \<mapsto> id'),
             if card (Masters serverRole) = masterRolesPerServer \<and> masterRolesRemainder > 0
             then masterRolesRemainder - 1 else masterRolesRemainder))"

definition assignReplica ::
  "(string \<rightharpoonup> ServerRole) \<Rightarrow> (shard \<rightharpoonup> string) \<Rightarrow> (shard \<Rightarrow> string list) \<Rightarrow> string \<Rightarrow> shard
     \<Rightarrow> nat \<Rightarrow> nat \<Rightarrow> ((string \<rightharpoonup> ServerRole) \<times> (shard \<Rightarrow> string list) \<times> nat) option" where
  "assignReplica serverRoles masters replicas id' shard replicaRolesPerServer replicaRolesRemainder =
     (case serverRoles id' of
        None \<Rightarrow> None
      | Some serverRole \<Rightarrow>
          if card (Replicas serverRole) > replicaRolesPerServer then None
          else if card (Replicas serverRole) = replicaRolesPerServer \<and> replicaRolesRemainder = 0 then None
          else if hasShard serverRole shard then None
          else Some
            (serverRoles(id' \<mapsto> serverRole\<lparr>Replicas := insert shard (Replicas serverRole)\<rparr>),
             replicas(shard := replicas shard @ [id']),
             if card (Replicas serverRole) = replicaRolesPerServer \<and> replicaRolesRemainder > 0
             then replicaRolesRemainder - 1 else replicaRolesRemainder))"

text \<open>
  Go leaves the iteration order of \<open>range\<close> over a map unspecified. Every such loop takes
  the order as a list: the loops below visit the listed keys that are in the map, in the
  order of the list.

  The inner loop of \<open>swapReplica\<close>: the first \<open>swapShard\<close> of \<open>swapServerRole.Replicas\<close>
  that passes both \<open>continue\<close> tests.
\<close>

fun swapShardLoop :: "ServerRole \<Rightarrow> ServerRole \<Rightarrow> shard \<Rightarrow> shard list \<Rightarrow> shard option" where
  "swapShardLoop serverRole swapServerRole shard [] = None"
| "swapShardLoop serverRole swapServerRole shard (swapShard # rest) =
     (if swapShard \<notin> Replicas swapServerRole then swapShardLoop serverRole swapServerRole shard rest
      else if hasShard serverRole swapShard then swapShardLoop serverRole swapServerRole shard rest
      else if hasShard swapServerRole shard then swapShardLoop serverRole swapServerRole shard rest
      else Some swapShard)"

text \<open>
  The body executed once a \<open>swapShard\<close> is found. Both calls of \<open>assignReplica\<close> share the
  local \<open>noReplicaRemainder\<close> (initially 0) and their results are discarded by the source:
  a call that returns \<open>false\<close> leaves everything as it was.
\<close>

definition doSwap ::
  "(string \<rightharpoonup> ServerRole) \<Rightarrow> (shard \<rightharpoonup> string) \<Rightarrow> (shard \<Rightarrow> string list) \<Rightarrow> string \<Rightarrow> shard
     \<Rightarrow> nat \<Rightarrow> string \<Rightarrow> ServerRole \<Rightarrow> shard \<Rightarrow> ((string \<rightharpoonup> ServerRole) \<times> (shard \<Rightarrow> string list))" where
  "doSwap serverRoles masters replicas id' shard replicaRolesPerServer swapID swapServerRole swapShard =
     (let serverRoles1 = serverRoles(swapID \<mapsto> swapServerRole\<lparr>Replicas := Replicas swapServerRole - {swapShard}\<rparr>);
          replicas1 = removeReplica replicas swapShard swapID;
          noReplicaRemainder = 0;
          (serverRoles2, replicas2, noReplicaRemainder2) =
            (case assignReplica serverRoles1 masters replicas1 swapID shard MaxUint64 noReplicaRemainder of
               None \<Rightarrow> (serverRoles1, replicas1, noReplicaRemainder)
             | Some r \<Rightarrow> r);
          (serverRoles3, replicas3, noReplicaRemainder3) =
            (case assignReplica serverRoles2 masters replicas2 id' swapShard replicaRolesPerServer noReplicaRemainder2 of
               None \<Rightarrow> (serverRoles2, replicas2, noReplicaRemainder2)
             | Some r \<Rightarrow> r)
      in (serverRoles3, replicas3))"

fun swapLoop ::
  "(string \<rightharpoonup> ServerRole) \<Rightarrow> (shard \<rightharpoonup> string) \<Rightarrow> (shard \<Rightarrow> string list) \<Rightarrow> string \<Rightarrow> shard
     \<Rightarrow> nat \<Rightarrow> (string \<Rightarrow> shard list) \<Rightarrow> ServerRole \<Rightarrow> string list
     \<Rightarrow> ((string \<rightharpoonup> ServerRole) \<times> (shard \<Rightarrow> string list)) option" where
  "swapLoop serverRoles masters replicas id' shard replicaRolesPerServer shardOrder serverRole [] = None"
| "swapLoop serverRoles masters replicas id' shard replicaRolesPerServer shardOrder serverRole (swapID # rest) =
     (if swapID = id'
      then swapLoop serverRoles masters replicas id' shard replicaRolesPerServer shardOrder serverRole rest
      else case serverRoles swapID of
        None \<Rightarrow> swapLoop serverRoles masters replicas id' shard replicaRolesPerServer shardOrder serverRole rest
      | Some swapServerRole \<Rightarrow>
          (case swapShardLoop serverRole swapServerRole shard (shardOrder swapID) of
             None \<Rightarrow> swapLoop serverRoles masters replicas id' shard replicaRolesPerServer shardOrder serverRole rest
           | Some swapShard \<Rightarrow>
               Some (doSwap serverRoles masters replicas id' shard replicaRolesPerServer
                       swapID swapServerRole swapShard)))"

text \<open>
  \<open>roleOrder\<close> is the order of \<open>range serverRoles\<close> and \<open>shardOrder swapID\<close> the order of
  \<open>range swapServerRole.Replicas\<close>.
\<close>

definition swapReplica ::
  "(string \<rightharpoonup> ServerRole) \<Rightarrow> (shard \<rightharpoonup> string) \<Rightarrow> (shard \<Rightarrow> string list) \<Rightarrow> string \<Rightarrow> shard
     \<Rightarrow> nat \<Rightarrow> string list \<Rightarrow> (string \<Rightarrow> shard list)
     \<Rightarrow> ((string \<rightharpoonup> ServerRole) \<times> (shard \<Rightarrow> string list)) option" where
  "swapReplica serverRoles masters replicas id' shard replicaRolesPerServer roleOrder shardOrder =
     (case serverRoles id' of
        None \<Rightarrow> None
      | Some serverRole \<Rightarrow>
          if card (Replicas serverRole) \<ge> replicaRolesPerServer then None
          else swapLoop serverRoles masters replicas id' shard replicaRolesPerServer
                 shardOrder serverRole roleOrder)"

section \<open>The assigner's watch callback (AssignRoles)\<close>

datatype error = DecodeError | StoreError | DiscoveryErrCancelled | ErrCancelled | errComplete | NilDereference

text \<open>
  What the callback does to the outside world, in the order it does it: the writes and
  deletes it issues on the discovery client and the failure diagnostic it logs. The keys
  \<open>serverRoleKeyVersion(id, version)\<close> and \<open>addressesKey(version)\<close> are kept as their
  arguments; a key handed to \<open>Delete\<close> is the key \<open>GetAll\<close> returned.
\<close>

datatype event =
    SetServerRole string int ServerRole
  | SetAddresses int Addresses
  | Delete string
  | FailedToAssignRoles

text \<open>The variables of \<open>AssignRoles\<close> that its callback closes over.\<close>

record assigner =
  version :: int
  oldServers :: "string set"
  oldRoles :: "string \<rightharpoonup> ServerRole"
  oldMasters :: "shard \<rightharpoonup> string"
  oldReplicas :: "shard \<Rightarrow> string list"
  oldMinVersion :: int

text \<open>
  The iteration orders of the callback's \<open>range\<close> loops over maps, one field per loop
  whose order can change the result, indexed by the loop variables in scope.
\<close>

record rangeOrder =
  masterServerOrder :: "shard \<Rightarrow> string list"
  replicaServerOrder :: "64 word \<Rightarrow> shard \<Rightarrow> string list"
  swapServerOrder :: "64 word \<Rightarrow> shard \<Rightarrow> string list"
  swapRoleOrder :: "64 word \<Rightarrow> shard \<Rightarrow> string \<Rightarrow> string list"
  swapShardOrder :: "64 word \<Rightarrow> shard \<Rightarrow> string \<Rightarrow> string \<Rightarrow> shard list"
  publishOrder :: "string list"

text \<open>
  The discovery client as the callback meets it. A snapshot value is the result of
  decoding it (\<open>None\<close> when \<open>jsonpb.UnmarshalString\<close> fails). \<open>frontendSnapshots\<close> are the
  snapshots the watch on the frontend-state prefix delivers before it is cancelled,
  \<open>getAllServerRoles\<close> is the answer of \<open>GetAll(serverRoleDir)\<close> in the order the callback
  ranges over it (\<open>None\<close> when it fails), and \<open>storeFails\<close> tells which \<open>Set\<close> or
  \<open>Delete\<close> returns an error (marshalling a record is part of its \<open>Set\<close>).
\<close>

record discovery =
  frontendSnapshots :: "FrontendState option list list"
  getAllServerRoles :: "(string \<times> ServerRole option) list option"
  storeFails :: "event \<Rightarrow> bool"

text \<open>
  Modelled from the spec: \<open>discovery.Client.WatchAll\<close> is not among the sources. The spec
  (section 6) has it deliver a full snapshot on every change and terminate when the
  callback returns any non-nil value, when the store reports cancellation, or on cancel
  close; by section 4.5 a cancelled watch returns a cancellation marker. The snapshots are
  the ones delivered before cancellation.
\<close>

fun WatchAll :: "'a list \<Rightarrow> ('a \<Rightarrow> error option) \<Rightarrow> error option" where
  "WatchAll [] callback = Some DiscoveryErrCancelled"
| "WatchAll (snapshot # rest) callback =
     (case callback snapshot of None \<Rightarrow> WatchAll rest callback | Some err \<Rightarrow> Some err)"

definition shardRange :: "64 word \<Rightarrow> 64 word list" where
  "shardRange n = map word_of_nat [0..<unat n]"

text \<open>The decoding loop at the head of the callback.\<close>

fun decodeServerStates :: "ServerState option list \<Rightarrow> ServerState list option" where
  "decodeServerStates [] = Some []"
| "decodeServerStates (None # rest) = None"
| "decodeServerStates (Some serverState # rest) =
     map_option ((#) serverState) (decodeServerStates rest)"

definition newServerStatesOf :: "ServerState list \<Rightarrow> (string \<rightharpoonup> ServerState)" where
  "newServerStatesOf serverStates =
     foldl (\<lambda>m serverState. m(stateId serverState \<mapsto> serverState)) Map.empty serverStates"

definition newRolesOf :: "int \<Rightarrow> ServerState list \<Rightarrow> (string \<rightharpoonup> ServerRole)" where
  "newRolesOf version' serverStates =
     foldl (\<lambda>m serverState. m(stateId serverState \<mapsto>
              \<lparr>roleId = stateId serverState, roleVersion = version', Masters = {}, Replicas = {}\<rparr>))
       Map.empty serverStates"

definition shardLocationsOf :: "ServerState list \<Rightarrow> shard \<Rightarrow> string list" where
  "shardLocationsOf serverStates shard =
     map stateId (filter (\<lambda>serverState. shard \<in> Shards serverState) serverStates)"

text \<open>
  \<open>minVersion\<close>: the minimum is the same in every iteration order, so the loop runs over
  the ids in snapshot order.
\<close>

definition minVersionOf :: "(string \<rightharpoonup> ServerState) \<Rightarrow> string list \<Rightarrow> int" where
  "minVersionOf newServerStates ids =
     foldl (\<lambda>minVersion id'.
              case newServerStates id' of
                None \<Rightarrow> minVersion
              | Some serverState \<Rightarrow>
                  if stateVersion serverState < minVersion then stateVersion serverState else minVersion)
       MaxInt64 ids"

subsection \<open>Garbage collection of role records\<close>

text \<open>The callback of the one-shot watch on the frontend states.\<close>

fun frontendCallback :: "int \<Rightarrow> FrontendState option list \<Rightarrow> error option" where
  "frontendCallback minVersion [] = Some errComplete"
| "frontendCallback minVersion (None # rest) = Some DecodeError"
| "frontendCallback minVersion (Some frontendState # rest) =
     (if frontendVersion frontendState < minVersion then None
      else frontendCallback minVersion rest)"

fun deleteRoles :: "(event \<Rightarrow> bool) \<Rightarrow> int \<Rightarrow> (string \<times> ServerRole option) list \<Rightarrow> error option \<times> event list" where
  "deleteRoles fails minVersion [] = (None, [])"
| "deleteRoles fails minVersion ((key, None) # rest) = (Some DecodeError, [])"
| "deleteRoles fails minVersion ((key, Some serverRole) # rest) =
     (if roleVersion serverRole < minVersion
      then if fails (Delete key) then (Some StoreError, [])
           else (case deleteRoles fails minVersion rest of (err, events) \<Rightarrow> (err, Delete key # events))
      else deleteRoles fails minVersion rest)"

definition collectRoles :: "discovery \<Rightarrow> int \<Rightarrow> error option \<times> event list" where
  "collectRoles client minVersion =
     (let err = WatchAll (frontendSnapshots client) (frontendCallback minVersion)
      in if err \<noteq> None \<and> err \<noteq> Some errComplete then (err, [])
         else (case getAllServerRoles client of
                 None \<Rightarrow> (Some StoreError, [])
               | Some serverRoles \<Rightarrow> deleteRoles (storeFails client) minVersion serverRoles))"

definition sameServers :: "string set \<Rightarrow> (string \<rightharpoonup> ServerState) \<Rightarrow> bool" where
  "sameServers oldServers' newServerStates \<longleftrightarrow>
     card oldServers' = card (dom newServerStates) \<and> (\<forall>id' \<in> oldServers'. id' \<in> dom newServerStates)"

subsection \<open>The master pass and the replica pass\<close>

text \<open>
  The four candidate loops of a shard, one after the other: the previous master, the
  previous replicas, the servers that report the shard, and every live server.
\<close>

definition candidates ::
  "assigner \<Rightarrow> (shard \<Rightarrow> string list) \<Rightarrow> string list \<Rightarrow> shard \<Rightarrow> string list" where
  "candidates st shardLocations serverOrder shard =
     (case oldMasters st shard of None \<Rightarrow> [] | Some id' \<Rightarrow> [id'])
     @ oldReplicas st shard @ shardLocations shard @ serverOrder"

fun tryAssignMaster ::
  "(string \<rightharpoonup> ServerRole) \<Rightarrow> (shard \<rightharpoonup> string) \<Rightarrow> shard \<Rightarrow> nat \<Rightarrow> nat \<Rightarrow> string list
     \<Rightarrow> ((string \<rightharpoonup> ServerRole) \<times> (shard \<rightharpoonup> string) \<times> nat) option" where
  "tryAssignMaster newRoles newMasters shard masterRolesPerServer masterRolesRemainder [] = None"
| "tryAssignMaster newRoles newMasters shard masterRolesPerServer masterRolesRemainder (id' # ids) =
     (case assignMaster newRoles newMasters id' shard masterRolesPerServer masterRolesRemainder of
        Some r \<Rightarrow> Some r
      | None \<Rightarrow> tryAssignMaster newRoles newMasters shard masterRolesPerServer masterRolesRemainder ids)"

fun masterLoop ::
  "assigner \<Rightarrow> (shard \<Rightarrow> string list) \<Rightarrow> (shard \<Rightarrow> string list) \<Rightarrow> nat \<Rightarrow> shard list
     \<Rightarrow> (string \<rightharpoonup> ServerRole) \<times> (shard \<rightharpoonup> string) \<times> nat
     \<Rightarrow> ((string \<rightharpoonup> ServerRole) \<times> (shard \<rightharpoonup> string) \<times> nat) option" where
  "masterLoop st shardLocations serverOrder masterRolesPerServer [] s = Some s"
| "masterLoop st shardLocations serverOrder masterRolesPerServer (shard # rest) (newRoles, newMasters, masterRolesRemainder) =
     (case tryAssignMaster newRoles newMasters shard masterRolesPerServer masterRolesRemainder
             (candidates st shardLocations (serverOrder shard) shard) of
        None \<Rightarrow> None
      | Some s' \<Rightarrow> masterLoop st shardLocations serverOrder masterRolesPerServer rest s')"

fun tryAssignReplica ::
  "(string \<rightharpoonup> ServerRole) \<Rightarrow> (shard \<rightharpoonup> string) \<Rightarrow> (shard \<Rightarrow> string list) \<Rightarrow> shard \<Rightarrow> nat \<Rightarrow> nat
     \<Rightarrow> string list \<Rightarrow> ((string \<rightharpoonup> ServerRole) \<times> (shard \<Rightarrow> string list) \<times> nat) option" where
  "tryAssignReplica newRoles newMasters newReplicas shard replicaRolesPerServer replicaRolesRemainder [] = None"
| "tryAssignReplica newRoles newMasters newReplicas shard replicaRolesPerServer replicaRolesRemainder (id' # ids) =
     (case assignReplica newRoles newMasters newReplicas id' shard replicaRolesPerServer replicaRolesRemainder of
        Some r \<Rightarrow> Some r
      | None \<Rightarrow> tryAssignReplica newRoles newMasters newReplicas shard replicaRolesPerServer
                  replicaRolesRemainder ids)"

fun trySwapReplica ::
  "(string \<rightharpoonup> ServerRole) \<Rightarrow> (shard \<rightharpoonup> string) \<Rightarrow> (shard \<Rightarrow> string list) \<Rightarrow> shard \<Rightarrow> nat
     \<Rightarrow> (string \<Rightarrow> string list) \<Rightarrow> (string \<Rightarrow> string \<Rightarrow> shard list) \<Rightarrow> string list
     \<Rightarrow> ((string \<rightharpoonup> ServerRole) \<times> (shard \<Rightarrow> string list)) option" where
  "trySwapReplica newRoles newMasters newReplicas shard replicaRolesPerServer roleOrder shardOrder [] = None"
| "trySwapReplica newRoles newMasters newReplicas shard replicaRolesPerServer roleOrder shardOrder (id' # ids) =
     (case swapReplica newRoles newMasters newReplicas id' shard replicaRolesPerServer
             (roleOrder id') (shardOrder id') of
        Some r \<Rightarrow> Some r
      | None \<Rightarrow> trySwapReplica newRoles newMasters newReplicas shard replicaRolesPerServer
                  roleOrder shardOrder ids)"

text \<open>The body of the inner \<open>Replica\<close> loop for one replica index and one shard.\<close>

definition replicaStep ::
  "assigner \<Rightarrow> rangeOrder \<Rightarrow> (shard \<Rightarrow> string list) \<Rightarrow> (shard \<rightharpoonup> string) \<Rightarrow> nat \<Rightarrow> 64 word \<Rightarrow> shard
     \<Rightarrow> (string \<rightharpoonup> ServerRole) \<times> (shard \<Rightarrow> string list) \<times> nat
     \<Rightarrow> ((string \<rightharpoonup> ServerRole) \<times> (shard \<Rightarrow> string list) \<times> nat) option" where
  "replicaStep st order shardLocations newMasters replicaRolesPerServer replica shard s =
     (case s of (newRoles, newReplicas, replicaRolesRemainder) \<Rightarrow>
        (case tryAssignReplica newRoles newMasters newReplicas shard replicaRolesPerServer
                replicaRolesRemainder
                (candidates st shardLocations (replicaServerOrder order replica shard) shard) of
           Some r \<Rightarrow> Some r
         | None \<Rightarrow>
             (case trySwapReplica newRoles newMasters newReplicas shard replicaRolesPerServer
                     (swapRoleOrder order replica shard) (swapShardOrder order replica shard)
                     (swapServerOrder order replica shard) of
                Some (newRoles', newReplicas') \<Rightarrow> Some (newRoles', newReplicas', replicaRolesRemainder)
              | None \<Rightarrow> None)))"

fun replicaLoop ::
  "assigner \<Rightarrow> rangeOrder \<Rightarrow> (shard \<Rightarrow> string list) \<Rightarrow> (shard \<rightharpoonup> string) \<Rightarrow> nat \<Rightarrow> (64 word \<times> shard) list
     \<Rightarrow> (string \<rightharpoonup> ServerRole) \<times> (shard \<Rightarrow> string list) \<times> nat
     \<Rightarrow> ((string \<rightharpoonup> ServerRole) \<times> (shard \<Rightarrow> string list) \<times> nat) option" where
  "replicaLoop st order shardLocations newMasters replicaRolesPerServer [] s = Some s"
| "replicaLoop st order shardLocations newMasters replicaRolesPerServer ((replica, shard) # rest) s =
     (case replicaStep st order shardLocations newMasters replicaRolesPerServer replica shard s of
        None \<Rightarrow> None
      | Some s' \<Rightarrow> replicaLoop st order shardLocations newMasters replicaRolesPerServer rest s')"

text \<open>The nested loops' iterations, in order: every shard for replica 0, then for replica 1, ...\<close>

definition replicaIterations :: "sharder \<Rightarrow> (64 word \<times> shard) list" where
  "replicaIterations a =
     concat (map (\<lambda>replica. map (\<lambda>shard. (replica, shard)) (shardRange (numShards a)))
               (shardRange (numReplicas a)))"

text \<open>
  Both passes, from the empty roles of the snapshot: \<open>None\<close> when one of them reaches its
  \<open>FailedToAssignRoles\<close> exit, otherwise \<open>newRoles\<close>, \<open>newMasters\<close>, \<open>newReplicas\<close>.
  \<open>n\<close> is \<open>len(encodedServerStates)\<close>.
\<close>

definition assignShards ::
  "sharder \<Rightarrow> assigner \<Rightarrow> rangeOrder \<Rightarrow> nat \<Rightarrow> ServerState list
     \<Rightarrow> ((string \<rightharpoonup> ServerRole) \<times> (shard \<rightharpoonup> string) \<times> (shard \<Rightarrow> string list)) option" where
  "assignShards a st order n serverStates =
     (let masterRolesPerServer = unat (numShards a) div n;
          masterRolesRemainder = unat (numShards a) mod n;
          replicaRolesPerServer = unat (numShards a * numReplicas a) div n;
          replicaRolesRemainder = unat (numShards a * numReplicas a) mod n;
          shardLocations = shardLocationsOf serverStates
      in case masterLoop st shardLocations (masterServerOrder order) masterRolesPerServer
                (shardRange (numShards a))
                (newRolesOf (version st) serverStates, Map.empty, masterRolesRemainder) of
           None \<Rightarrow> None
         | Some (newRoles, newMasters, masterRolesRemainder') \<Rightarrow>
             (case replicaLoop st order shardLocations newMasters replicaRolesPerServer
                     (replicaIterations a) (newRoles, (\<lambda>shard. []), replicaRolesRemainder) of
                None \<Rightarrow> None
              | Some (newRoles', newReplicas, replicaRolesRemainder') \<Rightarrow>
                  Some (newRoles', newMasters, newReplicas)))"

subsection \<open>Publication\<close>

definition emptyAddresses :: "sharder \<Rightarrow> (shard \<rightharpoonup> ShardAddresses)" where
  "emptyAddresses a =
     foldl (\<lambda>m shard. m(shard \<mapsto> \<lparr>Master = [], ReplicaAddresses = {}\<rparr>)) Map.empty
       (shardRange (numShards a))"

text \<open>
  The two inner loops over \<open>serverRole.Masters\<close> and \<open>serverRole.Replicas\<close> write a
  different entry at every iteration, so their order is immaterial. An entry that is
  missing is a nil pointer in the source, and writing through it panics.
\<close>

definition setMasterAddress :: "string \<Rightarrow> shard set \<Rightarrow> (shard \<rightharpoonup> ShardAddresses) \<Rightarrow> (shard \<rightharpoonup> ShardAddresses)" where
  "setMasterAddress address' shards' m =
     (\<lambda>shard. if shard \<in> shards' then map_option (\<lambda>shardAddresses. shardAddresses\<lparr>Master := address'\<rparr>) (m shard)
               else m shard)"

definition addReplicaAddress :: "string \<Rightarrow> shard set \<Rightarrow> (shard \<rightharpoonup> ShardAddresses) \<Rightarrow> (shard \<rightharpoonup> ShardAddresses)" where
  "addReplicaAddress address' shards' m =
     (\<lambda>shard. if shard \<in> shards'
               then map_option (\<lambda>shardAddresses. shardAddresses\<lparr>ReplicaAddresses := insert address' (ReplicaAddresses shardAddresses)\<rparr>) (m shard)
               else m shard)"

fun publishRoles ::
  "(event \<Rightarrow> bool) \<Rightarrow> int \<Rightarrow> (string \<rightharpoonup> ServerRole) \<Rightarrow> (string \<rightharpoonup> ServerState) \<Rightarrow> string list
     \<Rightarrow> (shard \<rightharpoonup> ShardAddresses) \<Rightarrow> error option \<times> event list \<times> (shard \<rightharpoonup> ShardAddresses)" where
  "publishRoles fails version' newRoles newServerStates [] addresses = (None, [], addresses)"
| "publishRoles fails version' newRoles newServerStates (id' # ids) addresses =
     (case newRoles id' of
        None \<Rightarrow> publishRoles fails version' newRoles newServerStates ids addresses
      | Some serverRole \<Rightarrow>
          if fails (SetServerRole id' version' serverRole) then (Some StoreError, [], addresses)
          else (case newServerStates id' of
                  None \<Rightarrow> (Some NilDereference, [SetServerRole id' version' serverRole], addresses)
                | Some serverState \<Rightarrow>
                    if \<exists>shard \<in> Masters serverRole \<union> Replicas serverRole. addresses shard = None
                    then (Some NilDereference, [SetServerRole id' version' serverRole], addresses)
                    else (case publishRoles fails version' newRoles newServerStates ids
                                 (addReplicaAddress (stateAddress serverState) (Replicas serverRole)
                                    (setMasterAddress (stateAddress serverState) (Masters serverRole) addresses)) of
                            (err, events, addresses') \<Rightarrow>
                              (err, SetServerRole id' version' serverRole # events, addresses'))))"

subsection \<open>The callback\<close>

text \<open>
  The result is the error the callback returns (\<open>None\<close> for \<open>nil\<close>), what it did to the
  outside world, and the closed-over variables as it leaves them.
\<close>

definition assignRolesCallback ::
  "sharder \<Rightarrow> discovery \<Rightarrow> rangeOrder \<Rightarrow> assigner \<Rightarrow> ServerState option list
     \<Rightarrow> error option \<times> event list \<times> assigner" where
  "assignRolesCallback a client order st encodedServerStates =
     (if length encodedServerStates = 0 then (None, [], st)
      else case decodeServerStates encodedServerStates of
        None \<Rightarrow> (Some DecodeError, [], st)
      | Some serverStates \<Rightarrow>
          (let newServerStates = newServerStatesOf serverStates;
               minVersion = minVersionOf newServerStates (map stateId serverStates);
               (gcErr, gcEvents) =
                 (if minVersion > oldMinVersion st then collectRoles client minVersion else (None, []));
               st1 = (if minVersion > oldMinVersion st then st\<lparr>oldMinVersion := minVersion\<rparr> else st)
           in if gcErr \<noteq> None then (gcErr, gcEvents, st1)
              else if sameServers (oldServers st1) newServerStates then (None, gcEvents, st1)
              else (case assignShards a st1 order (length encodedServerStates) serverStates of
                      None \<Rightarrow> (None, gcEvents @ [FailedToAssignRoles], st1)
                    | Some (newRoles, newMasters, newReplicas) \<Rightarrow>
                        (case publishRoles (storeFails client) (version st1) newRoles newServerStates
                                (publishOrder order) (emptyAddresses a) of
                           (Some err, events, addresses) \<Rightarrow> (Some err, gcEvents @ events, st1)
                         | (None, events, addresses) \<Rightarrow>
                             (let snapshot = \<lparr>addressesVersion = version st1, addressesMap = addresses\<rparr>
                              in if storeFails client (SetAddresses (version st1) snapshot)
                                 then (Some StoreError, gcEvents @ events, st1)
                                 else (None, gcEvents @ events @ [SetAddresses (version st1) snapshot],
                                       st1\<lparr>version := version st1 + 1,
                                           oldServers := dom newServerStates,
                                           oldRoles := newRoles,
                                           oldMasters := newMasters,
                                           oldReplicas := newReplicas\<rparr>))))))"

section \<open>The followers (fillRoles, runFrontend)\<close>

text \<open>
  What a follower does to the outside world: the calls on the server's data plane, the
  call of \<open>frontend.Version\<close>, and the send on its version channel.
\<close>

datatype followerEvent =
    AddShard shard int
  | RemoveShard shard int
  | FrontendVersion int
  | VersionChanSend int

datatype followerError = UnmarshalError | DataPlaneError | FrontendError

subsection \<open>The role follower's watch callback\<close>











subsection \<open>The frontend version follower's watch callback\<close>

fun minAckedVersion :: "int \<Rightarrow> ServerState option list \<Rightarrow> int option" where
  "minAckedVersion minVersion [] = Some minVersion"
| "minAckedVersion minVersion (None # rest) = None"
| "minAckedVersion minVersion (Some serverState # rest) =
     minAckedVersion
       (if stateVersion serverState < minVersion then stateVersion serverState else minVersion) rest"

text \<open>
  \<open>versionFails\<close> tells for which versions \<open>frontend.Version\<close> returns an error; the
  third component is the closed-over \<open>version\<close> as the callback leaves it.
\<close>

definition runFrontendCallback ::
  "(int \<Rightarrow> bool) \<Rightarrow> int \<Rightarrow> ServerState option list \<Rightarrow> followerError option \<times> followerEvent list \<times> int" where
  "runFrontendCallback versionFails version' encodedServerStates =
     (if length encodedServerStates = 0 then (None, [], version')
      else case minAckedVersion MaxInt64 encodedServerStates of
        None \<Rightarrow> (Some UnmarshalError, [], version')
      | Some minVersion \<Rightarrow>
          if minVersion > version'
          then if versionFails minVersion
               then (Some FrontendError, [FrontendVersion minVersion], version')
               else (None, [FrontendVersion minVersion, VersionChanSend minVersion], minVersion)
          else (None, [], version'))"

section \<open>Properties of roles and of what the assigner writes\<close>

text \<open>The list \<open>ks\<close> is an order in which \<open>range\<close> can visit the keys of the map \<open>m\<close>.\<close>

definition ranges :: "'k list \<Rightarrow> ('k \<rightharpoonup> 'v) \<Rightarrow> bool" where
  "ranges ks m \<longleftrightarrow> distinct ks \<and> set ks = dom m"

text \<open>No server holds a shard both as master and as replica.\<close>

definition disjointRoles :: "(string \<rightharpoonup> ServerRole) \<Rightarrow> bool" where
  "disjointRoles serverRoles \<longleftrightarrow>
     (\<forall>id' serverRole. serverRoles id' = Some serverRole \<longrightarrow> Masters serverRole \<inter> Replicas serverRole = {})"

text \<open>The shard-to-master map says which server's role holds a shard as master.\<close>

definition mastersAgree :: "(string \<rightharpoonup> ServerRole) \<Rightarrow> (shard \<rightharpoonup> string) \<Rightarrow> bool" where
  "mastersAgree serverRoles masters \<longleftrightarrow>
     (\<forall>shard id'. (\<exists>serverRole. serverRoles id' = Some serverRole \<and> shard \<in> Masters serverRole)
                   \<longleftrightarrow> masters shard = Some id')"

text \<open>The replica pass leaves every role's masters, id and version alone.\<close>

definition sameMasters :: "(string \<rightharpoonup> ServerRole) \<Rightarrow> (string \<rightharpoonup> ServerRole) \<Rightarrow> bool" where
  "sameMasters serverRoles serverRoles' \<longleftrightarrow>
     (\<forall>i. map_option (\<lambda>r. (roleId r, roleVersion r, Masters r)) (serverRoles' i)
          = map_option (\<lambda>r. (roleId r, roleVersion r, Masters r)) (serverRoles i))"

text \<open>
  The quota bookkeeping of a pass over the servers \<open>K\<close>, where \<open>c\<close> counts what a server
  holds: nobody is above \<open>q + 1\<close>, the servers at \<open>q + 1\<close> are those that took one of
  the \<open>r0\<close> remainder slots that are no longer in \<open>rm\<close>, and \<open>n\<close> placements were made.
\<close>

definition balanced :: "string set \<Rightarrow> (string \<Rightarrow> nat) \<Rightarrow> nat \<Rightarrow> nat \<Rightarrow> nat \<Rightarrow> nat \<Rightarrow> bool" where
  "balanced K c q r0 rm n \<longleftrightarrow>
     finite K \<and> (\<forall>i \<in> K. c i \<le> q + 1) \<and> card {i \<in> K. c i = q + 1} + rm = r0 \<and> sum c K = n"

text \<open>The role records written at a version, in the order they were written.\<close>

fun publishedRoles :: "int \<Rightarrow> event list \<Rightarrow> (string \<times> ServerRole) list" where
  "publishedRoles version' [] = []"
| "publishedRoles version' (SetServerRole id' v serverRole # events) =
     (if v = version' then (id', serverRole) # publishedRoles version' events
      else publishedRoles version' events)"
| "publishedRoles version' (_ # events) = publishedRoles version' events"



section \<open>Concrete inputs\<close>


definition emptyRole :: "int \<Rightarrow> ServerRole" where
  "emptyRole v = \<lparr>roleId = ''A'', roleVersion = v, Masters = {}, Replicas = {}\<rparr>"




definition serverStateOf :: "string \<Rightarrow> int \<Rightarrow> ServerState" where
  "serverStateOf id' v = \<lparr>stateId = id', stateAddress = id' @ '':650'', stateVersion = v, Shards = {}\<rparr>"

definition versionNeverFails :: "int \<Rightarrow> bool" where
  "versionNeverFails v = False"

text \<open>
  Three servers, three shards and one replica: the replica pass places shards 0 and 1
  directly and has to swap to place shard 2.
\<close>

definition threeShards :: sharder where
  "threeShards = \<lparr>numShards = 3, numReplicas = 1\<rparr>"

definition threeServers :: "ServerState list" where
  "threeServers = [serverStateOf ''A'' (-1), serverStateOf ''B'' (-1), serverStateOf ''C'' (-1)]"

definition alphabetical :: rangeOrder where
  "alphabetical = \<lparr>
     masterServerOrder = (\<lambda>shard. [''A'', ''B'', ''C'']),
     replicaServerOrder = (\<lambda>replica shard. [''A'', ''B'', ''C'']),
     swapServerOrder = (\<lambda>replica shard. [''A'', ''B'', ''C'']),
     swapRoleOrder = (\<lambda>replica shard id'. [''A'', ''B'', ''C'']),
     swapShardOrder = (\<lambda>replica shard id' swapID. [0, 1, 2]),
     publishOrder = [''A'', ''B'', ''C'']\<rparr>"

definition quietStore :: discovery where
  "quietStore = \<lparr>frontendSnapshots = [], getAllServerRoles = Some [], storeFails = (\<lambda>e. False)\<rparr>"

definition freshAssigner :: assigner where
  "freshAssigner = \<lparr>version = 0, oldServers = {}, oldRoles = Map.empty, oldMasters = Map.empty,
     oldReplicas = (\<lambda>shard. []), oldMinVersion = 0\<rparr>"

text \<open>Roles in which the only way to give server C a replica of shard 2 is a swap.\<close>

definition beforeSwap :: "string \<rightharpoonup> ServerRole" where
  "beforeSwap =
     [''A'' \<mapsto> \<lparr>roleId = ''A'', roleVersion = 0, Masters = {0}, Replicas = {1}\<rparr>,
      ''B'' \<mapsto> \<lparr>roleId = ''B'', roleVersion = 0, Masters = {1}, Replicas = {0}\<rparr>,
      ''C'' \<mapsto> \<lparr>roleId = ''C'', roleVersion = 0, Masters = {2}, Replicas = {}\<rparr>]"

text \<open>An assigner that remembers server C as the master of shard 1.\<close>

definition rememberingAssigner :: assigner where
  "rememberingAssigner = freshAssigner\<lparr>oldMasters := [1 \<mapsto> ''C'']\<rparr>"

text \<open>
  Two servers, three shards and two replicas: each shard has one server left to hold a
  replica, so the second replica of a shard cannot be placed.
\<close>

definition twoReplicas :: sharder where
  "twoReplicas = \<lparr>numShards = 3, numReplicas = 2\<rparr>"

definition twoServers :: "ServerState list" where
  "twoServers = [serverStateOf ''A'' (-1), serverStateOf ''B'' (-1)]"

definition twoServerOrder :: rangeOrder where
  "twoServerOrder = \<lparr>
     masterServerOrder = (\<lambda>shard. [''A'', ''B'']),
     replicaServerOrder = (\<lambda>replica shard. [''A'', ''B'']),
     swapServerOrder = (\<lambda>replica shard. [''A'', ''B'']),
     swapRoleOrder = (\<lambda>replica shard id'. [''A'', ''B'']),
     swapShardOrder = (\<lambda>replica shard id' swapID. [0, 1, 2]),
     publishOrder = [''A'', ''B'']\<rparr>"

text \<open>
  Both servers have acknowledged version 1, the only frontend has followed after first
  being seen at version 0, and the store still holds server A's role records of
  versions 0 and 1.
\<close>

definition ackedServers :: "ServerState list" where
  "ackedServers = [serverStateOf ''A'' 1, serverStateOf ''B'' 1]"

definition staleStore :: discovery where
  "staleStore = \<lparr>
     frontendSnapshots =
       [[Some \<lparr>frontendAddress = ''F:650'', frontendVersion = 0\<rparr>],
        [Some \<lparr>frontendAddress = ''F:650'', frontendVersion = 1\<rparr>]],
     getAllServerRoles = Some [(''role/A/0'', Some (emptyRole 0)), (''role/A/1'', Some (emptyRole 1))],
     storeFails = (\<lambda>e. False)\<rparr>"

section \<open>What a successful call has done\<close>

lemma assignMaster_SomeD:
  assumes "assignMaster serverRoles masters i shard q rm = Some (serverRoles', masters', rm')"
  obtains serverRole where
    "serverRoles i = Some serverRole"
    "\<not> hasShard serverRole shard"
    "card (Masters serverRole) \<le> q"
    "card (Masters serverRole) = q \<Longrightarrow> 0 < rm \<and> rm' = rm - 1"
    "card (Masters serverRole) < q \<Longrightarrow> rm' = rm"
    "serverRoles' = serverRoles(i \<mapsto> serverRole\<lparr>Masters := insert shard (Masters serverRole)\<rparr>)"
    "masters' = masters(shard \<mapsto> i)"
  using assms unfolding assignMaster_def
  by (auto split: option.splits if_splits)

lemma assignReplica_SomeD:
  assumes "assignReplica serverRoles masters replicas i shard q rm = Some (serverRoles', replicas', rm')"
  obtains serverRole where
    "serverRoles i = Some serverRole"
    "\<not> hasShard serverRole shard"
    "card (Replicas serverRole) \<le> q"
    "card (Replicas serverRole) = q \<Longrightarrow> 0 < rm \<and> rm' = rm - 1"
    "card (Replicas serverRole) < q \<Longrightarrow> rm' = rm"
    "serverRoles' = serverRoles(i \<mapsto> serverRole\<lparr>Replicas := insert shard (Replicas serverRole)\<rparr>)"
    "replicas' = replicas(shard := replicas shard @ [i])"
  using assms unfolding assignReplica_def
  by (auto split: option.splits if_splits)

lemma tryAssignMaster_SomeD:
  "tryAssignMaster serverRoles masters shard q rm ids = Some r \<Longrightarrow>
     \<exists>i \<in> set ids. assignMaster serverRoles masters i shard q rm = Some r"
  by (induction ids) (auto split: option.splits)

lemma tryAssignReplica_SomeD:
  "tryAssignReplica serverRoles masters replicas shard q rm ids = Some r \<Longrightarrow>
     \<exists>i \<in> set ids. assignReplica serverRoles masters replicas i shard q rm = Some r"
  by (induction ids) (auto split: option.splits)

lemma swapShardLoop_SomeD:
  "swapShardLoop serverRole swapServerRole shard shards' = Some swapShard \<Longrightarrow>
     swapShard \<in> Replicas swapServerRole \<and> \<not> hasShard serverRole swapShard
     \<and> \<not> hasShard swapServerRole shard"
  by (induction shards') (auto split: if_splits)

lemma swapLoop_SomeD:
  "swapLoop serverRoles masters replicas i shard q shardOrder serverRole ids = Some r \<Longrightarrow>
     \<exists>swapID swapServerRole swapShard.
        swapID \<noteq> i \<and> serverRoles swapID = Some swapServerRole
        \<and> swapShard \<in> Replicas swapServerRole \<and> \<not> hasShard serverRole swapShard
        \<and> \<not> hasShard swapServerRole shard
        \<and> r = doSwap serverRoles masters replicas i shard q swapID swapServerRole swapShard"
  by (induction ids) (auto split: option.splits if_splits dest: swapShardLoop_SomeD)

lemma swapReplica_SomeD:
  assumes "swapReplica serverRoles masters replicas i shard q roleOrder shardOrder = Some r"
  obtains serverRole swapID swapServerRole swapShard where
    "serverRoles i = Some serverRole" "card (Replicas serverRole) < q"
    "swapID \<noteq> i" "serverRoles swapID = Some swapServerRole"
    "swapShard \<in> Replicas swapServerRole" "\<not> hasShard serverRole swapShard"
    "\<not> hasShard swapServerRole shard"
    "r = doSwap serverRoles masters replicas i shard q swapID swapServerRole swapShard"
  using assms unfolding swapReplica_def
  by (auto split: option.splits if_splits dest!: swapLoop_SomeD)

lemma card_word_le: "card (A :: 64 word set) \<le> 2 ^ 64"
proof -
  have "card A \<le> card (UNIV :: 64 word set)" by (rule card_mono) auto
  then show ?thesis by (simp add: card_word)
qed

lemma card_less_MaxUint64:
  assumes "shard \<notin> A" "swapShard \<in> A"
  shows "card (A - {swapShard} :: 64 word set) < MaxUint64"
proof -
  have "A - {swapShard} \<subseteq> UNIV - {shard, swapShard}" using assms by auto
  then have "card (A - {swapShard}) \<le> card (UNIV - {shard, swapShard} :: 64 word set)"
    by (intro card_mono) auto
  also have "\<dots> = 2 ^ 64 - 2"
  proof -
    have "shard \<noteq> swapShard" using assms by auto
    then have "card {shard, swapShard} = 2" by simp
    then show ?thesis by (subst card_Diff_subset) (auto simp: card_word)
  qed
  finally show ?thesis by (simp add: MaxUint64_def)
qed

lemma doSwap_eq:
  assumes "serverRoles i = Some serverRole" "card (Replicas serverRole) < q"
    "swapID \<noteq> i" "serverRoles swapID = Some swapServerRole"
    "swapShard \<in> Replicas swapServerRole" "\<not> hasShard serverRole swapShard"
    "\<not> hasShard swapServerRole shard"
  shows "doSwap serverRoles masters replicas i shard q swapID swapServerRole swapShard =
     (serverRoles(swapID \<mapsto> swapServerRole\<lparr>Replicas := insert shard (Replicas swapServerRole - {swapShard})\<rparr>,
                  i \<mapsto> serverRole\<lparr>Replicas := insert swapShard (Replicas serverRole)\<rparr>),
      (let replicas1 = removeReplica replicas swapShard swapID;
           replicas2 = replicas1(shard := replicas1 shard @ [swapID])
       in replicas2(swapShard := replicas2 swapShard @ [i])))"
proof -
  have ne: "shard \<noteq> swapShard" using assms by (auto simp: hasShard_def)
  have c: "card (Replicas swapServerRole - {swapShard}) < MaxUint64"
    using assms by (intro card_less_MaxUint64) (auto simp: hasShard_def)
  show ?thesis
    using assms ne c unfolding doSwap_def assignReplica_def Let_def
    by (auto simp: hasShard_def)
qed

section \<open>Loop invariants of the two passes\<close>

text \<open>
  An invariant of the master pass may mention the shards already placed. It is kept by
  the loop when every successful \<open>assignMaster\<close> keeps it.
\<close>

lemma masterLoop_invariant:
  assumes "masterLoop st shardLocations serverOrder q shards' s = Some s'"
    and "P placed s"
    and "allShards = placed @ shards'"
    and step: "\<And>placed' serverRoles masters rm i shard rest r.
       P placed' (serverRoles, masters, rm) \<Longrightarrow> allShards = placed' @ shard # rest \<Longrightarrow>
       assignMaster serverRoles masters i shard q rm = Some r \<Longrightarrow> P (placed' @ [shard]) r"
  shows "P allShards s'"
  using assms
proof (induction shards' arbitrary: s placed)
  case Nil
  then show ?case by simp
next
  case (Cons shard rest)
  obtain serverRoles masters rm where s: "s = (serverRoles, masters, rm)"
    by (cases s) auto
  from Cons.prems(1) s obtain r where
    tr: "tryAssignMaster serverRoles masters shard q rm
            (candidates st shardLocations (serverOrder shard) shard) = Some r"
    and rest: "masterLoop st shardLocations serverOrder q rest r = Some s'"
    by (auto split: option.splits)
  from tr obtain i where "assignMaster serverRoles masters i shard q rm = Some r"
    by (blast dest: tryAssignMaster_SomeD)
  with Cons.prems(2,3,4) s have "P (placed @ [shard]) r" by simp
  with Cons.IH[OF rest, of "placed @ [shard]"] Cons.prems(3,4) show ?case by simp
qed

lemma trySwapReplica_SomeD:
  "trySwapReplica serverRoles masters replicas shard q roleOrder shardOrder ids = Some r \<Longrightarrow>
     \<exists>i \<in> set ids. swapReplica serverRoles masters replicas i shard q (roleOrder i) (shardOrder i) = Some r"
  by (induction ids) (auto split: option.splits)

lemma replicaLoop_invariant:
  assumes "replicaLoop st order shardLocations newMasters q iterations s = Some s'"
    and "P placed s"
    and assign: "\<And>placed' serverRoles replicas rm i replica shard r.
       P placed' (serverRoles, replicas, rm) \<Longrightarrow> (replica, shard) \<in> set iterations \<Longrightarrow>
       assignReplica serverRoles newMasters replicas i shard q rm = Some r
       \<Longrightarrow> P (placed' @ [(replica, shard)]) r"
    and swap: "\<And>placed' serverRoles replicas rm i replica shard roleOrder shardOrder serverRoles' replicas'.
       P placed' (serverRoles, replicas, rm) \<Longrightarrow> (replica, shard) \<in> set iterations \<Longrightarrow>
       swapReplica serverRoles newMasters replicas i shard q roleOrder shardOrder
         = Some (serverRoles', replicas')
       \<Longrightarrow> P (placed' @ [(replica, shard)]) (serverRoles', replicas', rm)"
  shows "P (placed @ iterations) s'"
  using assms
proof (induction iterations arbitrary: s placed)
  case Nil
  then show ?case by simp
next
  case (Cons it rest)
  obtain replica shard where it: "it = (replica, shard)" by (cases it) auto
  obtain serverRoles replicas rm where s: "s = (serverRoles, replicas, rm)"
    by (cases s) auto
  from Cons.prems(1) it obtain r where
    stp: "replicaStep st order shardLocations newMasters q replica shard s = Some r"
    and rest: "replicaLoop st order shardLocations newMasters q rest r = Some s'"
    by (auto split: option.splits)
  have "P (placed @ [(replica, shard)]) r"
  proof (cases "tryAssignReplica serverRoles newMasters replicas shard q rm
                  (candidates st shardLocations (replicaServerOrder order replica shard) shard)")
    case (Some r')
    with stp s have "r' = r" by (simp add: replicaStep_def)
    with Some obtain i where "assignReplica serverRoles newMasters replicas i shard q rm = Some r"
      by (blast dest: tryAssignReplica_SomeD)
    with Cons.prems(2,3) s it show ?thesis by simp
  next
    case None
    with stp s obtain serverRoles' replicas' where
      sw: "trySwapReplica serverRoles newMasters replicas shard q
             (swapRoleOrder order replica shard) (swapShardOrder order replica shard)
             (swapServerOrder order replica shard) = Some (serverRoles', replicas')"
      and r: "r = (serverRoles', replicas', rm)"
      by (auto simp: replicaStep_def split: option.splits)
    from sw obtain i where
      "swapReplica serverRoles newMasters replicas i shard q
         (swapRoleOrder order replica shard i) (swapShardOrder order replica shard i)
         = Some (serverRoles', replicas')"
      by (blast dest: trySwapReplica_SomeD)
    with Cons.prems(2) Cons.prems(4)[of placed serverRoles replicas rm replica shard] s it r
    show ?thesis by simp
  qed
  with Cons.IH[OF rest, of "placed @ [it]"] Cons.prems(3,4) it show ?case by simp
qed

section \<open>The role follower's window\<close>


































section \<open>The frontend version follower\<close>

lemma minAckedVersion_Min:
  "minAckedVersion m (map Some serverStates) = Some (Min (insert m (stateVersion ` set serverStates)))"
proof (induction serverStates arbitrary: m)
  case Nil
  then show ?case by simp
next
  case (Cons s rest)
  have "Min (insert (min (stateVersion s) m) (stateVersion ` set rest))
      = Min (insert m (insert (stateVersion s) (stateVersion ` set rest)))"
    by (cases "set rest = {}") (auto simp: min.commute min.left_commute)
  moreover have "(if stateVersion s < m then stateVersion s else m) = min (stateVersion s) m"
    by (simp add: min_def)
  ultimately show ?case using Cons.IH by simp
qed

lemma minAckedVersion_MaxInt64:
  assumes "serverStates \<noteq> []" "\<forall>s \<in> set serverStates. stateVersion s \<le> MaxInt64"
  shows "minAckedVersion MaxInt64 (map Some serverStates) = Some (Min (stateVersion ` set serverStates))"
proof -
  have ne: "stateVersion ` set serverStates \<noteq> {}" and fin: "finite (stateVersion ` set serverStates)"
    using assms by (cases serverStates; simp)+
  from assms obtain s where s: "s \<in> set serverStates" "stateVersion s \<le> MaxInt64"
    by (cases serverStates) auto
  then have "Min (stateVersion ` set serverStates) \<le> stateVersion s"
    by (intro Min_le) auto
  with s have "Min (stateVersion ` set serverStates) \<le> MaxInt64" by linarith
  then have "Min (insert MaxInt64 (stateVersion ` set serverStates)) = Min (stateVersion ` set serverStates)"
    unfolding Min_insert[OF fin ne] by (rule min_absorb2)
  then show ?thesis by (simp add: minAckedVersion_Min)
qed

text \<open>
  C7. On a non-empty snapshot whose server states all decode (versions being \<open>int64\<close>
  values), the frontend version follower takes the minimum of the acknowledged versions
  of all of them, none skipped, so a server still at \<open>InvalidVersion\<close> holds a follower
  that is at \<open>InvalidVersion\<close> or above back. It calls \<open>frontend.Version\<close> on the minimum
  exactly when the minimum exceeds its last-applied version; when the call succeeds the
  minimum becomes its version and is sent on the version channel, and when it fails the
  error is returned and the version stays.
\<close>

theorem runFrontend_advances_to_minimum:
  assumes "serverStates \<noteq> []" and "\<forall>s \<in> set serverStates. stateVersion s \<le> MaxInt64"
  shows "runFrontendCallback versionFails version' (map Some serverStates) =
     (if Min (stateVersion ` set serverStates) > version'
      then if versionFails (Min (stateVersion ` set serverStates))
           then (Some FrontendError, [FrontendVersion (Min (stateVersion ` set serverStates))], version')
           else (None, [FrontendVersion (Min (stateVersion ` set serverStates)),
                        VersionChanSend (Min (stateVersion ` set serverStates))],
                 Min (stateVersion ` set serverStates))
      else (None, [], version'))
     \<and> ((\<exists>s \<in> set serverStates. stateVersion s = InvalidVersion) \<and> InvalidVersion \<le> version'
          \<longrightarrow> runFrontendCallback versionFails version' (map Some serverStates) = (None, [], version'))"
proof -
  have run: "runFrontendCallback versionFails version' (map Some serverStates) =
     (if Min (stateVersion ` set serverStates) > version'
      then if versionFails (Min (stateVersion ` set serverStates))
           then (Some FrontendError, [FrontendVersion (Min (stateVersion ` set serverStates))], version')
           else (None, [FrontendVersion (Min (stateVersion ` set serverStates)),
                        VersionChanSend (Min (stateVersion ` set serverStates))],
                 Min (stateVersion ` set serverStates))
      else (None, [], version'))"
    using assms by (simp add: runFrontendCallback_def minAckedVersion_MaxInt64)
  have inv: "Min (stateVersion ` set serverStates) \<le> InvalidVersion"
    if "\<exists>s \<in> set serverStates. stateVersion s = InvalidVersion"
  proof -
    from that obtain s where "s \<in> set serverStates" "stateVersion s = InvalidVersion" by blast
    then have "InvalidVersion \<in> stateVersion ` set serverStates" by force
    then show ?thesis by (intro Min_le) auto
  qed
  show ?thesis
  proof (intro conjI impI)
    show "runFrontendCallback versionFails version' (map Some serverStates) =
     (if Min (stateVersion ` set serverStates) > version'
      then if versionFails (Min (stateVersion ` set serverStates))
           then (Some FrontendError, [FrontendVersion (Min (stateVersion ` set serverStates))], version')
           else (None, [FrontendVersion (Min (stateVersion ` set serverStates)),
                        VersionChanSend (Min (stateVersion ` set serverStates))],
                 Min (stateVersion ` set serverStates))
      else (None, [], version'))"
      by (rule run)
  next
    assume a: "(\<exists>s \<in> set serverStates. stateVersion s = InvalidVersion) \<and> InvalidVersion \<le> version'"
    with inv have "Min (stateVersion ` set serverStates) \<le> version'" by linarith
    with run show "runFrontendCallback versionFails version' (map Some serverStates) = (None, [], version')"
      by simp
  qed
qed

theorem runFrontend_advances_to_minimum_witness:
  "[serverStateOf ''A'' 2, serverStateOf ''B'' 1] \<noteq> []
   \<and> stateVersion (serverStateOf ''A'' 2) \<le> MaxInt64 \<and> stateVersion (serverStateOf ''B'' 1) \<le> MaxInt64
   \<and> runFrontendCallback versionNeverFails 0 [Some (serverStateOf ''A'' 2), Some (serverStateOf ''B'' 1)]
       = (None, [FrontendVersion 1, VersionChanSend 1], 1)
   \<and> runFrontendCallback versionNeverFails 1 [Some (serverStateOf ''A'' 2), Some (serverStateOf ''B'' 1)]
       = (None, [], 1)"
proof -
  have ne: "[serverStateOf ''A'' 2, serverStateOf ''B'' 1] \<noteq> []" by simp
  have bound: "\<forall>s \<in> set [serverStateOf ''A'' 2, serverStateOf ''B'' 1]. stateVersion s \<le> MaxInt64"
    by (simp add: serverStateOf_def MaxInt64_def)
  from runFrontend_advances_to_minimum[OF ne bound, of versionNeverFails 0]
    runFrontend_advances_to_minimum[OF ne bound, of versionNeverFails 1] bound
  show ?thesis
    by (simp add: serverStateOf_def versionNeverFails_def)
qed

section \<open>Keys, masters and disjointness through the passes\<close>

lemma assignMaster_dom:
  "assignMaster serverRoles masters i shard q rm = Some (serverRoles', masters', rm') \<Longrightarrow>
     dom serverRoles' = dom serverRoles"
  by (erule assignMaster_SomeD) auto

lemma assignReplica_dom:
  "assignReplica serverRoles masters replicas i shard q rm = Some (serverRoles', replicas', rm') \<Longrightarrow>
     dom serverRoles' = dom serverRoles"
  by (erule assignReplica_SomeD) auto

lemma swapReplica_dom:
  "swapReplica serverRoles masters replicas i shard q roleOrder shardOrder = Some (serverRoles', replicas') \<Longrightarrow>
     dom serverRoles' = dom serverRoles"
  by (erule swapReplica_SomeD) (auto simp: doSwap_eq)

lemma assignMaster_disjoint:
  "assignMaster serverRoles masters i shard q rm = Some (serverRoles', masters', rm') \<Longrightarrow>
     disjointRoles serverRoles \<Longrightarrow> disjointRoles serverRoles'"
  by (erule assignMaster_SomeD) (auto simp: disjointRoles_def hasShard_def)

lemma assignReplica_disjoint:
  "assignReplica serverRoles masters replicas i shard q rm = Some (serverRoles', replicas', rm') \<Longrightarrow>
     disjointRoles serverRoles \<Longrightarrow> disjointRoles serverRoles'"
  by (erule assignReplica_SomeD) (auto simp: disjointRoles_def hasShard_def)

lemma swapReplica_disjoint:
  "swapReplica serverRoles masters replicas i shard q roleOrder shardOrder = Some (serverRoles', replicas') \<Longrightarrow>
     disjointRoles serverRoles \<Longrightarrow> disjointRoles serverRoles'"
  by (erule swapReplica_SomeD) (auto simp: doSwap_eq disjointRoles_def hasShard_def split: if_splits)

lemma assignReplica_sameMasters:
  "assignReplica serverRoles masters replicas i shard q rm = Some (serverRoles', replicas', rm') \<Longrightarrow>
     sameMasters serverRoles serverRoles'"
  by (erule assignReplica_SomeD) (auto simp: sameMasters_def)

lemma swapReplica_sameMasters:
  "swapReplica serverRoles masters replicas i shard q roleOrder shardOrder = Some (serverRoles', replicas') \<Longrightarrow>
     sameMasters serverRoles serverRoles'"
  by (erule swapReplica_SomeD) (auto simp: doSwap_eq sameMasters_def)

lemma sameMasters_trans:
  "sameMasters a b \<Longrightarrow> sameMasters b c \<Longrightarrow> sameMasters a c"
  by (simp add: sameMasters_def)

lemma sameMasters_refl: "sameMasters a a"
  by (simp add: sameMasters_def)

lemma replicaLoop_sameMasters:
  assumes "replicaLoop st order shardLocations newMasters q iterations (serverRoles, replicas, rm)
             = Some (serverRoles', replicas', rm')"
  shows "sameMasters serverRoles serverRoles'"
proof -
  have "(\<lambda>placed s. sameMasters serverRoles (fst s)) ([] @ iterations) (serverRoles', replicas', rm')"
    by (rule replicaLoop_invariant[OF assms])
       (auto simp: sameMasters_refl
          dest!: assignReplica_sameMasters swapReplica_sameMasters intro: sameMasters_trans)
  then show ?thesis by simp
qed

section \<open>Counting\<close>

lemma balanced_step:
  assumes b: "balanced K c q r0 rm n" and i: "i \<in> K" and le: "c i \<le> q"
    and full: "c i = q \<Longrightarrow> 0 < rm \<and> rm' = rm - 1"
    and room: "c i < q \<Longrightarrow> rm' = rm"
    and c': "\<forall>j \<in> K. c' j = (if j = i then c i + 1 else c j)"
  shows "balanced K c' q r0 rm' (n + 1)"
proof -
  from b have fin: "finite K" and bound: "\<forall>j \<in> K. c j \<le> q + 1"
    and cnt: "card {j \<in> K. c j = q + 1} + rm = r0" and tot: "sum c K = n"
    by (auto simp: balanced_def)
  have bound': "\<forall>j \<in> K. c' j \<le> q + 1" using bound c' le by auto
  have "sum c' K = sum (\<lambda>j. if j = i then c i + 1 else c j) K"
    using c' by (intro sum.cong) auto
  also have "\<dots> = (c i + 1) + sum c (K - {i})"
    using fin i by (subst sum.remove[of K i]) (auto intro: sum.cong)
  also have "\<dots> = sum c K + 1"
    using sum.remove[OF fin i, of c] by simp
  finally have tot': "sum c' K = n + 1" using tot by simp
  have cnt': "card {j \<in> K. c' j = q + 1} + rm' = r0"
  proof (cases "c i = q")
    case True
    have "{j \<in> K. c' j = q + 1} = insert i {j \<in> K. c j = q + 1}"
      using c' i True by auto
    moreover have "i \<notin> {j \<in> K. c j = q + 1}" using True by simp
    moreover have "finite {j \<in> K. c j = q + 1}" using fin by simp
    ultimately have "card {j \<in> K. c' j = q + 1} = card {j \<in> K. c j = q + 1} + 1"
      by simp
    with cnt full[OF True] show ?thesis by simp
  next
    case False
    with le have lt: "c i < q" by simp
    have "{j \<in> K. c' j = q + 1} = {j \<in> K. c j = q + 1}"
      using c' lt by (auto split: if_splits)
    with cnt room[OF lt] show ?thesis by simp
  qed
  from fin bound' cnt' tot' show ?thesis by (simp add: balanced_def)
qed

text \<open>
  When as many placements were made as the quota and the remainder allow for \<open>S\<close>
  servers, and there are at most \<open>S\<close> servers, every server holds the floor or the
  ceiling of the average.
\<close>

lemma balanced_floor_ceiling:
  assumes b: "balanced K c (T div S) (T mod S) rm n" and S: "card K \<le> S" and T: "T \<le> n"
    and i: "i \<in> K"
  shows "n = T \<and> (c i = n div card K \<or> c i = (n + card K - 1) div card K)"
proof -
  let ?q = "T div S" and ?D = "card K" and ?H = "{j \<in> K. c j = T div S + 1}"
  from b have fin: "finite K" and bound: "\<forall>j \<in> K. c j \<le> ?q + 1"
    and cnt: "card ?H + rm = T mod S" and tot: "sum c K = n"
    by (auto simp: balanced_def)
  have D: "0 < ?D" using fin i by (auto simp: card_gt_0_iff)
  have kD: "card ?H \<le> ?D" using fin by (intro card_mono) auto
  have ind: "sum (\<lambda>j. ?q + (if c j = ?q + 1 then 1 else 0)) K = ?D * ?q + card ?H"
  proof -
    have "sum (\<lambda>j. if c j = ?q + 1 then 1 else 0) K = card ?H"
      using fin by (simp add: sum.If_cases Int_def)
    then show ?thesis by (simp add: sum.distrib)
  qed
  have pw: "\<forall>j \<in> K. c j \<le> ?q + (if c j = ?q + 1 then 1 else 0)"
    using bound by (auto simp: le_Suc_eq)
  have up: "n \<le> ?D * ?q + card ?H"
    unfolding tot[symmetric] ind[symmetric] using pw by (intro sum_mono) auto
  have "?D * ?q \<le> S * ?q" using S by simp
  moreover have "card ?H \<le> T mod S" using cnt by simp
  moreover have "S * ?q + T mod S = T" by simp
  ultimately have "?D * ?q + card ?H \<le> T" by linarith
  with up T have nT: "n = T" and eq: "n = ?D * ?q + card ?H" by auto
  have exact: "c j = ?q + (if c j = ?q + 1 then 1 else 0)" if "j \<in> K" for j
  proof (rule ccontr)
    assume "c j \<noteq> ?q + (if c j = ?q + 1 then 1 else 0)"
    with pw that have "c j < ?q + (if c j = ?q + 1 then 1 else 0)" by (simp add: le_neq_implies_less)
    with that have "\<exists>a \<in> K. c a < ?q + (if c a = ?q + 1 then 1 else 0)" by blast
    with pw fin have "sum c K < sum (\<lambda>j. ?q + (if c j = ?q + 1 then 1 else 0)) K"
      by (intro sum_strict_mono_ex1) auto
    with tot ind eq show False by simp
  qed
  have ci: "c i = ?q \<or> c i = ?q + 1" using exact[OF i] by (auto split: if_splits)
  show ?thesis
  proof (cases "card ?H = ?D")
    case True
    then have "?H = K" using fin by (intro card_subset_eq) auto
    with i have "c i = ?q + 1" by auto
    moreover from eq True have "n = ?D * (?q + 1)" by simp
    then have "n div ?D = ?q + 1" using D by simp
    ultimately show ?thesis using nT by simp
  next
    case False
    with kD have lt: "card ?H < ?D" by simp
    from eq have fl: "n div ?D = ?q" using lt D by simp
    show ?thesis
    proof (cases "c i = ?q")
      case True
      with fl nT show ?thesis by simp
    next
      case False
      with ci have c1: "c i = ?q + 1" by simp
      with i have "i \<in> ?H" by simp
      moreover have "finite ?H" using fin by simp
      ultimately have pos: "0 < card ?H" by (auto simp: card_gt_0_iff)
      have "n + ?D - 1 = ?D * (?q + 1) + (card ?H - 1)" using eq pos D by (simp add: algebra_simps)
      moreover have "card ?H - 1 < ?D" using lt by simp
      ultimately have "(n + ?D - 1) div ?D = (?D * (?q + 1) + (card ?H - 1)) div ?D" by simp
      also have "\<dots> = ?q + 1"
        using D \<open>card ?H - 1 < ?D\<close> by (subst div_mult_self4) auto
      finally have "(n + ?D - 1) div ?D = ?q + 1" .
      with c1 nT show ?thesis by simp
    qed
  qed
qed

section \<open>The snapshot's maps and the shard range\<close>

lemma foldl_upd_key:
  "foldl (\<lambda>m x. m(k x \<mapsto> g (k x))) m0 xs i = (if i \<in> k ` set xs then Some (g i) else m0 i)"
  by (induction xs arbitrary: m0) auto

lemma newRolesOf_apply:
  "newRolesOf v serverStates i =
     (if i \<in> stateId ` set serverStates
      then Some \<lparr>roleId = i, roleVersion = v, Masters = {}, Replicas = {}\<rparr> else None)"
  unfolding newRolesOf_def
  by (rule foldl_upd_key[where g = "\<lambda>i. \<lparr>roleId = i, roleVersion = v, Masters = {}, Replicas = {}\<rparr>"])

lemma dom_newRolesOf: "dom (newRolesOf v serverStates) = stateId ` set serverStates"
  by (auto simp: newRolesOf_apply split: if_splits)

lemma dom_foldl_upd: "dom (foldl (\<lambda>m x. m(k x \<mapsto> f x)) m0 xs) = dom m0 \<union> k ` set xs"
  by (induction xs arbitrary: m0) auto

lemma dom_newServerStatesOf: "dom (newServerStatesOf serverStates) = stateId ` set serverStates"
  by (simp add: newServerStatesOf_def dom_foldl_upd)

lemma foldl_upd_SomeD:
  "foldl (\<lambda>m x. m(k x \<mapsto> x)) m0 xs i = Some y \<Longrightarrow> (y \<in> set xs \<and> k y = i) \<or> m0 i = Some y"
  by (induction xs arbitrary: m0) (fastforce split: if_splits)+

lemma newServerStatesOf_SomeD:
  "newServerStatesOf serverStates i = Some serverState \<Longrightarrow>
     serverState \<in> set serverStates \<and> stateId serverState = i"
  unfolding newServerStatesOf_def by (drule foldl_upd_SomeD) simp

lemma decodeServerStates_Some:
  "decodeServerStates encoded = Some serverStates \<longleftrightarrow> encoded = map Some serverStates"
proof (induction encoded arbitrary: serverStates)
  case Nil
  then show ?case by auto
next
  case (Cons e rest)
  then show ?case by (cases e; cases serverStates) auto
qed

lemma unat_word_of_nat_less:
  "k < unat (n :: 64 word) \<Longrightarrow> unat (word_of_nat k :: 64 word) = k"
proof -
  assume "k < unat n"
  moreover have "unat n < 2 ^ 64" using unsigned_less[of n, where 'a = nat] by simp
  ultimately have "k < 2 ^ LENGTH(64)" by simp
  then show ?thesis by (intro of_nat_inverse) simp_all
qed

lemma set_shardRange: "set (shardRange n) = {shard. shard < n}"
proof -
  have "word_of_nat k < n" if "k < unat n" for k :: nat
  proof -
    have "unat (word_of_nat k :: 64 word) = k"
      using that by (rule unat_word_of_nat_less)
    with that show ?thesis by (simp add: word_less_nat_alt)
  qed
  moreover have "shard \<in> word_of_nat ` {0..<unat n}" if "shard < n" for shard :: "64 word"
  proof -
    have "unat shard < unat n" using that by (simp add: word_less_nat_alt)
    then have "word_of_nat (unat shard) \<in> (word_of_nat ` {0..<unat n} :: 64 word set)"
      by (intro imageI) simp
    then show ?thesis by simp
  qed
  ultimately show ?thesis by (auto simp: shardRange_def)
qed

lemma distinct_shardRange: "distinct (shardRange n)"
proof -
  have "inj_on (word_of_nat :: nat \<Rightarrow> 64 word) {0..<unat n}"
  proof (rule inj_onI)
    fix x y assume x: "x \<in> {0..<unat n}" and y: "y \<in> {0..<unat n}"
      and eq: "(word_of_nat x :: 64 word) = word_of_nat y"
    from x have ux: "unat (word_of_nat x :: 64 word) = x"
      by (intro unat_word_of_nat_less[of x n]) simp
    from y have uy: "unat (word_of_nat y :: 64 word) = y"
      by (intro unat_word_of_nat_less[of y n]) simp
    from ux uy eq show "x = y" by metis
  qed
  then show ?thesis by (simp add: shardRange_def distinct_map)
qed

lemma length_shardRange: "length (shardRange n) = unat n"
  by (simp add: shardRange_def)

lemma length_replicaIterations:
  "length (replicaIterations a) = unat (numShards a) * unat (numReplicas a)"
  by (simp add: replicaIterations_def length_concat comp_def sum_list_triv length_shardRange)

lemma snd_replicaIterations:
  "(replica, shard) \<in> set (replicaIterations a) \<Longrightarrow> shard < numShards a"
  by (auto simp: replicaIterations_def set_shardRange)

section \<open>The master pass\<close>

lemma assignMaster_mastersAgree:
  assumes "assignMaster serverRoles masters i shard q rm = Some (serverRoles', masters', rm')"
    and "mastersAgree serverRoles masters" and "masters shard = None"
  shows "mastersAgree serverRoles' masters'"
proof -
  from assms(1) obtain serverRole where
    r: "serverRoles i = Some serverRole"
    and r': "serverRoles' = serverRoles(i \<mapsto> serverRole\<lparr>Masters := insert shard (Masters serverRole)\<rparr>)"
    and m': "masters' = masters(shard \<mapsto> i)"
    by (rule assignMaster_SomeD)
  from assms(2,3) have none: "\<And>j x. serverRoles j = Some x \<Longrightarrow> shard \<notin> Masters x"
    unfolding mastersAgree_def by (metis option.distinct(1))
  show ?thesis
    unfolding mastersAgree_def
  proof (intro allI)
    fix s j
    show "(\<exists>x. serverRoles' j = Some x \<and> s \<in> Masters x) \<longleftrightarrow> masters' s = Some j"
    proof (cases "s = shard")
      case True
      with r r' m' none show ?thesis by auto
    next
      case False
      have "(\<exists>x. serverRoles' j = Some x \<and> s \<in> Masters x) \<longleftrightarrow> (\<exists>x. serverRoles j = Some x \<and> s \<in> Masters x)"
        using r r' False by (cases "j = i") auto
      with assms(2) m' False show ?thesis by (simp add: mastersAgree_def)
    qed
  qed
qed

lemma masterLoop_structure:
  assumes loop: "masterLoop st shardLocations serverOrder q (shardRange n)
             (newRolesOf v serverStates, Map.empty, rm) = Some (newRoles, newMasters, rm')"
  shows "dom newRoles = stateId ` set serverStates \<and> mastersAgree newRoles newMasters
     \<and> dom newMasters = {shard. shard < n}
     \<and> (\<forall>i r. newRoles i = Some r \<longrightarrow>
           roleId r = i \<and> roleVersion r = v \<and> Masters r \<subseteq> {shard. shard < n} \<and> Replicas r = {})"
proof -
  let ?P = "\<lambda>placed s. case s of (serverRoles, masters, rm) \<Rightarrow>
      dom serverRoles = stateId ` set serverStates \<and> mastersAgree serverRoles masters
      \<and> dom masters = set placed
      \<and> (\<forall>i r. serverRoles i = Some r \<longrightarrow>
            roleId r = i \<and> roleVersion r = v \<and> Masters r \<subseteq> set placed \<and> Replicas r = {})"
  have init: "?P [] (newRolesOf v serverStates, Map.empty, rm)"
    by (auto simp: dom_newRolesOf mastersAgree_def newRolesOf_apply split: if_splits)
  have "?P (shardRange n) (newRoles, newMasters, rm')"
  proof (rule masterLoop_invariant[OF loop, where P = ?P and placed = "[]"])
    show "?P [] (newRolesOf v serverStates, Map.empty, rm)" by (rule init)
    show "shardRange n = [] @ shardRange n" by simp
  next
    fix placed' serverRoles masters rm0 i shard rest r
    assume P: "?P placed' (serverRoles, masters, rm0)"
      and split: "shardRange n = placed' @ shard # rest"
      and a: "assignMaster serverRoles masters i shard q rm0 = Some r"
    obtain serverRoles' masters' rm1 where r: "r = (serverRoles', masters', rm1)"
      by (cases r) auto
    from split distinct_shardRange[of n] have fresh: "shard \<notin> set placed'"
      by (metis distinct_append distinct.simps(2) disjoint_iff list.set_intros(1))
    with P have none: "masters shard = None" by auto
    from a[unfolded r] obtain serverRole where
      sr: "serverRoles i = Some serverRole"
      and r': "serverRoles' = serverRoles(i \<mapsto> serverRole\<lparr>Masters := insert shard (Masters serverRole)\<rparr>)"
      and m': "masters' = masters(shard \<mapsto> i)"
      by (rule assignMaster_SomeD)
    from P have agree: "mastersAgree serverRoles masters" by simp
    have 1: "dom serverRoles' = stateId ` set serverStates"
      using assignMaster_dom[OF a[unfolded r]] P by simp
    have 2: "mastersAgree serverRoles' masters'"
      by (rule assignMaster_mastersAgree[OF a[unfolded r] agree none])
    have 3: "dom masters' = set (placed' @ [shard])" using P m' by auto
    from P have old: "\<And>j x. serverRoles j = Some x \<Longrightarrow>
            roleId x = j \<and> roleVersion x = v \<and> Masters x \<subseteq> set placed' \<and> Replicas x = {}"
      by simp
    have 4: "\<forall>j x. serverRoles' j = Some x \<longrightarrow>
            roleId x = j \<and> roleVersion x = v \<and> Masters x \<subseteq> set (placed' @ [shard]) \<and> Replicas x = {}"
    proof (intro allI impI)
      fix j x assume x: "serverRoles' j = Some x"
      show "roleId x = j \<and> roleVersion x = v \<and> Masters x \<subseteq> set (placed' @ [shard]) \<and> Replicas x = {}"
      proof (cases "j = i")
        case True
        with x r' have "x = serverRole\<lparr>Masters := insert shard (Masters serverRole)\<rparr>" by simp
        with old[OF sr] True show ?thesis by auto
      next
        case False
        with x r' have "serverRoles j = Some x" by simp
        from old[OF this] show ?thesis by auto
      qed
    qed
    from 1 2 3 4 show "?P (placed' @ [shard]) r" unfolding r by simp
  qed
  then show ?thesis by (simp add: set_shardRange)
qed

lemma masterLoop_balanced:
  assumes loop: "masterLoop st shardLocations serverOrder q shards'
             (serverRoles, masters, rm) = Some (newRoles, newMasters, rm')"
    and "finite (dom serverRoles)"
    and "\<forall>i r. serverRoles i = Some r \<longrightarrow> Masters r = {}"
  shows "dom newRoles = dom serverRoles
     \<and> balanced (dom serverRoles) (\<lambda>i. card (Masters (the (newRoles i)))) q rm rm' (length shards')"
proof -
  let ?K = "dom serverRoles"
  let ?P = "\<lambda>placed s. case s of (roles, ms, rm1) \<Rightarrow>
      dom roles = ?K \<and> balanced ?K (\<lambda>i. card (Masters (the (roles i)))) q rm rm1 (length placed)"
  have "?P shards' (newRoles, newMasters, rm')"
  proof (rule masterLoop_invariant[OF loop, where P = ?P and placed = "[]"])
    show "?P [] (serverRoles, masters, rm)"
      using assms(2,3) by (auto simp: balanced_def)
    show "shards' = [] @ shards'" by simp
  next
    fix placed' :: "shard list" and roles ms rm0 i shard r
    assume P: "?P placed' (roles, ms, rm0)"
      and a: "assignMaster roles ms i shard q rm0 = Some r"
    obtain roles' ms' rm1 where r: "r = (roles', ms', rm1)" by (cases r) auto
    from a[unfolded r] obtain serverRole where
      sr: "roles i = Some serverRole" and nh: "\<not> hasShard serverRole shard"
      and le: "card (Masters serverRole) \<le> q"
      and full: "card (Masters serverRole) = q \<Longrightarrow> 0 < rm0 \<and> rm1 = rm0 - 1"
      and room: "card (Masters serverRole) < q \<Longrightarrow> rm1 = rm0"
      and r': "roles' = roles(i \<mapsto> serverRole\<lparr>Masters := insert shard (Masters serverRole)\<rparr>)"
      by (rule assignMaster_SomeD) blast
    from P have dom: "dom roles = ?K"
      and b: "balanced ?K (\<lambda>i. card (Masters (the (roles i)))) q rm rm0 (length placed')"
      by auto
    have iK: "i \<in> ?K" using sr dom by auto
    have c': "\<forall>j \<in> ?K. card (Masters (the (roles' j)))
        = (if j = i then card (Masters (the (roles i))) + 1 else card (Masters (the (roles j))))"
      using sr nh r' by (auto simp: hasShard_def)
    have "balanced ?K (\<lambda>i. card (Masters (the (roles' i)))) q rm rm1 (length placed' + 1)"
      by (rule balanced_step[OF b iK _ _ _ c']) (use sr le full room in auto)
    moreover have "dom roles' = ?K" using dom sr r' by auto
    ultimately show "?P (placed' @ [shard]) r" unfolding r by simp
  qed
  then show ?thesis by simp
qed

section \<open>The replica pass\<close>

lemma swapReplica_roles:
  assumes "swapReplica serverRoles masters replicas i shard q roleOrder shardOrder = Some (serverRoles', replicas')"
  obtains serverRole swapID swapServerRole swapShard where
    "serverRoles i = Some serverRole" "card (Replicas serverRole) < q"
    "swapID \<noteq> i" "serverRoles swapID = Some swapServerRole"
    "swapShard \<in> Replicas swapServerRole" "swapShard \<notin> Replicas serverRole"
    "shard \<notin> Replicas swapServerRole"
    "serverRoles' = serverRoles
       (swapID \<mapsto> swapServerRole\<lparr>Replicas := insert shard (Replicas swapServerRole - {swapShard})\<rparr>,
        i \<mapsto> serverRole\<lparr>Replicas := insert swapShard (Replicas serverRole)\<rparr>)"
  using assms
  by (elim swapReplica_SomeD) (auto simp: doSwap_eq hasShard_def)

lemma replicaLoop_structure:
  assumes loop: "replicaLoop st order shardLocations newMasters q iterations
             (serverRoles, replicas, rm) = Some (newRoles, newReplicas, rm')"
    and dis: "disjointRoles serverRoles"
    and sub: "\<forall>i r. serverRoles i = Some r \<longrightarrow> Replicas r \<subseteq> A"
    and its: "\<forall>(replica, shard) \<in> set iterations. shard \<in> A"
  shows "dom newRoles = dom serverRoles \<and> disjointRoles newRoles
     \<and> (\<forall>i r. newRoles i = Some r \<longrightarrow> Replicas r \<subseteq> A)"
proof -
  let ?P = "\<lambda>(placed :: (64 word \<times> shard) list) s. case s of (roles, reps, rm1) \<Rightarrow>
      dom roles = dom serverRoles \<and> disjointRoles roles
      \<and> (\<forall>i r. roles i = Some r \<longrightarrow> Replicas r \<subseteq> A)"
  have "?P ([] @ iterations) (newRoles, newReplicas, rm')"
  proof (rule replicaLoop_invariant[OF loop, where P = ?P])
    show "?P [] (serverRoles, replicas, rm)" using dis sub by simp
  next
    fix placed' :: "(64 word \<times> shard) list" and roles reps rm0 i replica shard r
    assume P: "?P placed' (roles, reps, rm0)" and it: "(replica, shard) \<in> set iterations"
      and a: "assignReplica roles newMasters reps i shard q rm0 = Some r"
    obtain roles' reps' rm1 where r: "r = (roles', reps', rm1)" by (cases r) auto
    from it its have shA: "shard \<in> A" by auto
    from a[unfolded r] obtain serverRole where
      sr: "roles i = Some serverRole"
      and r': "roles' = roles(i \<mapsto> serverRole\<lparr>Replicas := insert shard (Replicas serverRole)\<rparr>)"
      by (rule assignReplica_SomeD) blast
    from P have old: "\<And>j x. roles j = Some x \<Longrightarrow> Replicas x \<subseteq> A" by simp
    have "\<forall>j x. roles' j = Some x \<longrightarrow> Replicas x \<subseteq> A"
    proof (intro allI impI)
      fix j x assume x: "roles' j = Some x"
      show "Replicas x \<subseteq> A"
      proof (cases "j = i")
        case True
        with x r' old[OF sr] shA show ?thesis by auto
      next
        case False
        with x r' old[of j x] show ?thesis by simp
      qed
    qed
    with P assignReplica_dom[OF a[unfolded r]] assignReplica_disjoint[OF a[unfolded r]]
    show "?P (placed' @ [(replica, shard)]) r" unfolding r by simp
  next
    fix placed' :: "(64 word \<times> shard) list"
      and roles reps rm0 i replica shard roleOrder shardOrder roles' reps'
    assume P: "?P placed' (roles, reps, rm0)" and it: "(replica, shard) \<in> set iterations"
      and a: "swapReplica roles newMasters reps i shard q roleOrder shardOrder = Some (roles', reps')"
    from it its have shA: "shard \<in> A" by auto
    from P have old: "\<And>j x. roles j = Some x \<Longrightarrow> Replicas x \<subseteq> A" by simp
    from a obtain serverRole swapID swapServerRole swapShard where
      sr: "roles i = Some serverRole" and ne: "swapID \<noteq> i"
      and sw: "roles swapID = Some swapServerRole"
      and ss: "swapShard \<in> Replicas swapServerRole"
      and r': "roles' = roles
         (swapID \<mapsto> swapServerRole\<lparr>Replicas := insert shard (Replicas swapServerRole - {swapShard})\<rparr>,
          i \<mapsto> serverRole\<lparr>Replicas := insert swapShard (Replicas serverRole)\<rparr>)"
      by (rule swapReplica_roles) blast
    from ss old[OF sw] have ssA: "swapShard \<in> A" by auto
    have "\<forall>j x. roles' j = Some x \<longrightarrow> Replicas x \<subseteq> A"
    proof (intro allI impI)
      fix j x assume x: "roles' j = Some x"
      consider "j = i" | "j = swapID" "j \<noteq> i" | "j \<noteq> i" "j \<noteq> swapID" by blast
      then show "Replicas x \<subseteq> A"
      proof cases
        case 1
        with x r' old[OF sr] ssA show ?thesis by auto
      next
        case 2
        with x r' old[OF sw] shA show ?thesis by auto
      next
        case 3
        with x r' old[of j x] show ?thesis by simp
      qed
    qed
    with P swapReplica_dom[OF a] swapReplica_disjoint[OF a]
    show "?P (placed' @ [(replica, shard)]) (roles', reps', rm0)" by simp
  qed
  then show ?thesis by simp
qed

lemma replicaLoop_balanced:
  assumes loop: "replicaLoop st order shardLocations newMasters q iterations
             (serverRoles, replicas, rm) = Some (newRoles, newReplicas, rm')"
    and "finite (dom serverRoles)"
    and "\<forall>i r. serverRoles i = Some r \<longrightarrow> Replicas r = {}"
  shows "balanced (dom serverRoles) (\<lambda>i. card (Replicas (the (newRoles i)))) q rm rm' (length iterations)"
proof -
  let ?K = "dom serverRoles"
  let ?P = "\<lambda>(placed :: (64 word \<times> shard) list) s. case s of (roles, reps, rm1) \<Rightarrow>
      dom roles = ?K \<and> balanced ?K (\<lambda>i. card (Replicas (the (roles i)))) q rm rm1 (length placed)"
  have "?P ([] @ iterations) (newRoles, newReplicas, rm')"
  proof (rule replicaLoop_invariant[OF loop, where P = ?P])
    show "?P [] (serverRoles, replicas, rm)"
      using assms(2,3) by (auto simp: balanced_def)
  next
    fix placed' :: "(64 word \<times> shard) list" and roles reps rm0 i replica shard r
    assume P: "?P placed' (roles, reps, rm0)"
      and a: "assignReplica roles newMasters reps i shard q rm0 = Some r"
    obtain roles' reps' rm1 where r: "r = (roles', reps', rm1)" by (cases r) auto
    from a[unfolded r] obtain serverRole where
      sr: "roles i = Some serverRole" and nh: "\<not> hasShard serverRole shard"
      and le: "card (Replicas serverRole) \<le> q"
      and full: "card (Replicas serverRole) = q \<Longrightarrow> 0 < rm0 \<and> rm1 = rm0 - 1"
      and room: "card (Replicas serverRole) < q \<Longrightarrow> rm1 = rm0"
      and r': "roles' = roles(i \<mapsto> serverRole\<lparr>Replicas := insert shard (Replicas serverRole)\<rparr>)"
      by (rule assignReplica_SomeD) blast
    from P have dom: "dom roles = ?K"
      and b: "balanced ?K (\<lambda>i. card (Replicas (the (roles i)))) q rm rm0 (length placed')"
      by auto
    have iK: "i \<in> ?K" using sr dom by auto
    have c': "\<forall>j \<in> ?K. card (Replicas (the (roles' j)))
        = (if j = i then card (Replicas (the (roles i))) + 1 else card (Replicas (the (roles j))))"
      using sr nh r' by (auto simp: hasShard_def)
    have "balanced ?K (\<lambda>i. card (Replicas (the (roles' i)))) q rm rm1 (length placed' + 1)"
      by (rule balanced_step[OF b iK _ _ _ c']) (use sr le full room in auto)
    moreover have "dom roles' = ?K" using dom sr r' by auto
    ultimately show "?P (placed' @ [(replica, shard)]) r" unfolding r by simp
  next
    fix placed' :: "(64 word \<times> shard) list"
      and roles reps rm0 i replica shard roleOrder shardOrder roles' reps'
    assume P: "?P placed' (roles, reps, rm0)"
      and a: "swapReplica roles newMasters reps i shard q roleOrder shardOrder = Some (roles', reps')"
    from a obtain serverRole swapID swapServerRole swapShard where
      sr: "roles i = Some serverRole" and lt: "card (Replicas serverRole) < q"
      and ne: "swapID \<noteq> i"
      and sw: "roles swapID = Some swapServerRole"
      and ss: "swapShard \<in> Replicas swapServerRole"
      and ns: "swapShard \<notin> Replicas serverRole"
      and nsh: "shard \<notin> Replicas swapServerRole"
      and r': "roles' = roles
         (swapID \<mapsto> swapServerRole\<lparr>Replicas := insert shard (Replicas swapServerRole - {swapShard})\<rparr>,
          i \<mapsto> serverRole\<lparr>Replicas := insert swapShard (Replicas serverRole)\<rparr>)"
      by (rule swapReplica_roles) blast
    from P have dom: "dom roles = ?K"
      and b: "balanced ?K (\<lambda>i. card (Replicas (the (roles i)))) q rm rm0 (length placed')"
      by auto
    have iK: "i \<in> ?K" using sr dom by auto
    have same: "card (insert shard (Replicas swapServerRole - {swapShard})) = card (Replicas swapServerRole)"
    proof -
      have "0 < card (Replicas swapServerRole)" using ss by (auto simp: card_gt_0_iff)
      then show ?thesis using ss nsh by (simp add: card_Diff_singleton)
    qed
    have c': "\<forall>j \<in> ?K. card (Replicas (the (roles' j)))
        = (if j = i then card (Replicas (the (roles i))) + 1 else card (Replicas (the (roles j))))"
      using sr sw ne ns same r' by auto
    have "balanced ?K (\<lambda>i. card (Replicas (the (roles' i)))) q rm rm0 (length placed' + 1)"
      by (rule balanced_step[OF b iK _ _ _ c']) (use sr lt in auto)
    moreover have "dom roles' = ?K" using dom swapReplica_dom[OF a] by simp
    ultimately show "?P (placed' @ [(replica, shard)]) (roles', reps', rm0)" by simp
  qed
  then show ?thesis by simp
qed

section \<open>Both passes together\<close>

lemma assignShards_SomeD:
  assumes "assignShards a st order n serverStates = Some (newRoles, newMasters, newReplicas)"
  obtains roles1 rm1 rm2 where
    "masterLoop st (shardLocationsOf serverStates) (masterServerOrder order)
       (unat (numShards a) div n) (shardRange (numShards a))
       (newRolesOf (version st) serverStates, Map.empty, unat (numShards a) mod n)
     = Some (roles1, newMasters, rm1)"
    "replicaLoop st order (shardLocationsOf serverStates) newMasters
       (unat (numShards a * numReplicas a) div n) (replicaIterations a)
       (roles1, (\<lambda>shard. []), unat (numShards a * numReplicas a) mod n)
     = Some (newRoles, newReplicas, rm2)"
  using assms unfolding assignShards_def Let_def
  by (auto split: option.splits prod.splits)

lemma assignShards_structure:
  assumes "assignShards a st order n serverStates = Some (newRoles, newMasters, newReplicas)"
  shows "dom newRoles = stateId ` set serverStates"
    and "mastersAgree newRoles newMasters"
    and "dom newMasters = {shard. shard < numShards a}"
    and "disjointRoles newRoles"
    and "newRoles i = Some r \<Longrightarrow>
           roleId r = i \<and> roleVersion r = version st
           \<and> Masters r \<subseteq> {shard. shard < numShards a} \<and> Replicas r \<subseteq> {shard. shard < numShards a}"
proof -
  from assms obtain roles1 rm1 rm2 where
    m: "masterLoop st (shardLocationsOf serverStates) (masterServerOrder order)
       (unat (numShards a) div n) (shardRange (numShards a))
       (newRolesOf (version st) serverStates, Map.empty, unat (numShards a) mod n)
     = Some (roles1, newMasters, rm1)"
    and rp: "replicaLoop st order (shardLocationsOf serverStates) newMasters
       (unat (numShards a * numReplicas a) div n) (replicaIterations a)
       (roles1, (\<lambda>shard. []), unat (numShards a * numReplicas a) mod n)
     = Some (newRoles, newReplicas, rm2)"
    by (rule assignShards_SomeD)
  from masterLoop_structure[OF m] have
    d1: "dom roles1 = stateId ` set serverStates" and ag1: "mastersAgree roles1 newMasters"
    and dm: "dom newMasters = {shard. shard < numShards a}"
    and f1: "\<And>j x. roles1 j = Some x \<Longrightarrow>
           roleId x = j \<and> roleVersion x = version st
           \<and> Masters x \<subseteq> {shard. shard < numShards a} \<and> Replicas x = {}"
    by auto
  have dis1: "disjointRoles roles1" using f1 by (auto simp: disjointRoles_def)
  have sub1: "\<forall>j x. roles1 j = Some x \<longrightarrow> Replicas x \<subseteq> {shard. shard < numShards a}"
    using f1 by auto
  have its: "\<forall>(replica, shard) \<in> set (replicaIterations a). shard \<in> {shard. shard < numShards a}"
    by (auto dest: snd_replicaIterations)
  from replicaLoop_structure[OF rp dis1 sub1 its] have
    d2: "dom newRoles = dom roles1" and dis2: "disjointRoles newRoles"
    and sub2: "\<And>j x. newRoles j = Some x \<Longrightarrow> Replicas x \<subseteq> {shard. shard < numShards a}"
    by auto
  have sm: "\<And>j. map_option (\<lambda>r. (roleId r, roleVersion r, Masters r)) (newRoles j)
          = map_option (\<lambda>r. (roleId r, roleVersion r, Masters r)) (roles1 j)"
    using replicaLoop_sameMasters[OF rp] by (simp add: sameMasters_def)
  show "dom newRoles = stateId ` set serverStates" using d1 d2 by simp
  show "dom newMasters = {shard. shard < numShards a}" by (rule dm)
  show "disjointRoles newRoles" by (rule dis2)
  show "mastersAgree newRoles newMasters"
    unfolding mastersAgree_def
  proof (intro allI)
    fix shard j
    have "(\<exists>x. newRoles j = Some x \<and> shard \<in> Masters x) \<longleftrightarrow> (\<exists>x. roles1 j = Some x \<and> shard \<in> Masters x)"
      using sm[of j] by (cases "newRoles j"; cases "roles1 j") auto
    with ag1 show "(\<exists>x. newRoles j = Some x \<and> shard \<in> Masters x) \<longleftrightarrow> newMasters shard = Some j"
      by (simp add: mastersAgree_def)
  qed
  show "roleId r = i \<and> roleVersion r = version st
           \<and> Masters r \<subseteq> {shard. shard < numShards a} \<and> Replicas r \<subseteq> {shard. shard < numShards a}"
    if "newRoles i = Some r"
  proof -
    from that sm[of i] obtain x where x: "roles1 i = Some x"
      and "roleId r = roleId x" "roleVersion r = roleVersion x" "Masters r = Masters x"
      by (cases "roles1 i") auto
    with f1[OF x] sub2[OF that] show ?thesis by simp
  qed
qed

lemma assignShards_counts:
  assumes as: "assignShards a st order n serverStates = Some (newRoles, newMasters, newReplicas)"
    and n: "card (stateId ` set serverStates) \<le> n"
    and r: "newRoles i = Some r"
  shows "(card (Masters r) = unat (numShards a) div card (stateId ` set serverStates)
          \<or> card (Masters r) = (unat (numShards a) + card (stateId ` set serverStates) - 1)
                                   div card (stateId ` set serverStates))
     \<and> (card (Replicas r) = (unat (numShards a) * unat (numReplicas a)) div card (stateId ` set serverStates)
          \<or> card (Replicas r) = (unat (numShards a) * unat (numReplicas a) + card (stateId ` set serverStates) - 1)
                                   div card (stateId ` set serverStates))"
proof -
  let ?K = "stateId ` set serverStates"
  from as obtain roles1 rm1 rm2 where
    m: "masterLoop st (shardLocationsOf serverStates) (masterServerOrder order)
       (unat (numShards a) div n) (shardRange (numShards a))
       (newRolesOf (version st) serverStates, Map.empty, unat (numShards a) mod n)
     = Some (roles1, newMasters, rm1)"
    and rp: "replicaLoop st order (shardLocationsOf serverStates) newMasters
       (unat (numShards a * numReplicas a) div n) (replicaIterations a)
       (roles1, (\<lambda>shard. []), unat (numShards a * numReplicas a) mod n)
     = Some (newRoles, newReplicas, rm2)"
    by (rule assignShards_SomeD)
  have fin0: "finite (dom (newRolesOf (version st) serverStates))" by (simp add: dom_newRolesOf)
  have e0: "\<forall>j x. newRolesOf (version st) serverStates j = Some x \<longrightarrow> Masters x = {}"
    by (auto simp: newRolesOf_apply split: if_splits)
  from masterLoop_balanced[OF m fin0 e0] have
    bm: "balanced ?K (\<lambda>j. card (Masters (the (roles1 j)))) (unat (numShards a) div n)
           (unat (numShards a) mod n) rm1 (unat (numShards a))"
    by (simp add: dom_newRolesOf length_shardRange)
  from masterLoop_structure[OF m] have
    d1: "dom roles1 = ?K" and e1: "\<forall>j x. roles1 j = Some x \<longrightarrow> Replicas x = {}"
    by auto
  have fin1: "finite (dom roles1)" using d1 by simp
  from replicaLoop_balanced[OF rp fin1 e1] have
    br: "balanced ?K (\<lambda>j. card (Replicas (the (newRoles j)))) (unat (numShards a * numReplicas a) div n)
           (unat (numShards a * numReplicas a) mod n) rm2 (unat (numShards a) * unat (numReplicas a))"
    by (simp add: d1 length_replicaIterations)
  from assignShards_structure(1)[OF as] r have iK: "i \<in> ?K" by auto
  have sm: "map_option (\<lambda>r. (roleId r, roleVersion r, Masters r)) (newRoles i)
          = map_option (\<lambda>r. (roleId r, roleVersion r, Masters r)) (roles1 i)"
    using replicaLoop_sameMasters[OF rp] by (simp add: sameMasters_def)
  with r have mi: "Masters (the (roles1 i)) = Masters r" by (cases "roles1 i") auto
  have le: "unat (numShards a * numReplicas a) \<le> unat (numShards a) * unat (numReplicas a)"
    by (simp add: unat_word_ariths)
  from balanced_floor_ceiling[OF bm n order_refl iK, THEN conjunct2] mi
  have M: "card (Masters r) = unat (numShards a) div card ?K
          \<or> card (Masters r) = (unat (numShards a) + card ?K - 1) div card ?K"
    by simp
  from balanced_floor_ceiling[OF br n le iK, THEN conjunct2] r
  have R: "card (Replicas r) = (unat (numShards a) * unat (numReplicas a)) div card ?K
          \<or> card (Replicas r) = (unat (numShards a) * unat (numReplicas a) + card ?K - 1) div card ?K"
    by simp
  from M R show ?thesis by simp
qed

section \<open>Publication\<close>

lemma candidates_oldMinVersion [simp]:
  "candidates (st\<lparr>oldMinVersion := x\<rparr>) = candidates st"
  by (intro ext) (simp add: candidates_def)

lemma masterLoop_oldMinVersion [simp]:
  "masterLoop (st\<lparr>oldMinVersion := x\<rparr>) shardLocations serverOrder q shards' s
     = masterLoop st shardLocations serverOrder q shards' s"
  by (induction shards' arbitrary: s) (auto split: option.splits)

lemma replicaLoop_oldMinVersion [simp]:
  "replicaLoop (st\<lparr>oldMinVersion := x\<rparr>) order shardLocations newMasters q iterations s
     = replicaLoop st order shardLocations newMasters q iterations s"
  by (induction iterations arbitrary: s) (auto simp: replicaStep_def split: option.splits)

lemma assignShards_oldMinVersion [simp]:
  "assignShards a (st\<lparr>oldMinVersion := x\<rparr>) order n serverStates = assignShards a st order n serverStates"
  by (simp add: assignShards_def Let_def split: option.splits prod.splits)

lemma publishRoles_only_roles:
  "publishRoles fails v newRoles newServerStates ids addresses = (err, events, addresses') \<Longrightarrow>
     e \<in> set events \<Longrightarrow> \<exists>i r. e = SetServerRole i v r"
  by (induction ids arbitrary: addresses events err)
     (auto split: if_splits option.splits prod.splits)

lemma deleteRoles_events:
  "deleteRoles fails minVersion serverRoles = (err, events) \<Longrightarrow> e \<in> set events \<Longrightarrow> \<exists>key. e = Delete key"
  by (induction fails minVersion serverRoles arbitrary: err events rule: deleteRoles.induct)
     (auto split: if_splits prod.splits)

lemma collectRoles_events:
  "collectRoles client minVersion = (err, events) \<Longrightarrow> e \<in> set events \<Longrightarrow> \<exists>key. e = Delete key"
  by (auto simp: collectRoles_def Let_def split: if_splits option.splits dest: deleteRoles_events)

lemma publishedRoles_append:
  "publishedRoles v (xs @ ys) = publishedRoles v xs @ publishedRoles v ys"
  by (induction v xs rule: publishedRoles.induct) auto

lemma publishedRoles_deletes:
  "\<forall>e \<in> set events. \<exists>key. e = Delete key \<Longrightarrow> publishedRoles v events = []"
  by (induction v events rule: publishedRoles.induct) auto

lemma publishRoles_events:
  "publishRoles fails v newRoles newServerStates ids addresses = (None, events, addresses') \<Longrightarrow>
     events = map (\<lambda>i. SetServerRole i v (the (newRoles i))) (filter (\<lambda>i. newRoles i \<noteq> None) ids)"
proof (induction ids arbitrary: addresses events)
  case Nil
  then show ?case by simp
next
  case (Cons i ids)
  show ?case
  proof (cases "newRoles i")
    case None
    with Cons show ?thesis by simp
  next
    case (Some serverRole)
    with Cons.prems obtain serverState events1 where
      "newServerStates i = Some serverState"
      and rest: "publishRoles fails v newRoles newServerStates ids
           (addReplicaAddress (stateAddress serverState) (Replicas serverRole)
              (setMasterAddress (stateAddress serverState) (Masters serverRole) addresses))
         = (None, events1, addresses')"
      and ev: "events = SetServerRole i v serverRole # events1"
      by (auto split: if_splits option.splits prod.splits)
    from Cons.IH[OF rest] ev Some show ?thesis by simp
  qed
qed

lemma publishedRoles_publish:
  "publishedRoles v (map (\<lambda>i. SetServerRole i v (the (newRoles i))) ids)
     = map (\<lambda>i. (i, the (newRoles i))) ids"
  by (induction ids) auto

text \<open>What a callback that wrote an addresses snapshot has done.\<close>

lemma assignRolesCallback_published:
  assumes run: "assignRolesCallback a client order st (map Some serverStates) = (err, events, st')"
    and set: "SetAddresses v addresses \<in> set events"
  obtains gcEvents roleEvents newRoles newMasters newReplicas where
    "events = gcEvents @ roleEvents @ [SetAddresses v addresses]"
    "\<forall>e \<in> set gcEvents. \<exists>key. e = Delete key"
    "assignShards a st order (length serverStates) serverStates = Some (newRoles, newMasters, newReplicas)"
    "publishRoles (storeFails client) (version st) newRoles (newServerStatesOf serverStates)
       (publishOrder order) (emptyAddresses a) = (None, roleEvents, addressesMap addresses)"
    "v = version st" "addressesVersion addresses = version st" "err = None"
    "version st' = version st + 1" "oldRoles st' = newRoles" "oldMasters st' = newMasters"
    "oldReplicas st' = newReplicas" "oldServers st' = stateId ` set serverStates"
proof -
  let ?nss = "newServerStatesOf serverStates"
  let ?min = "minVersionOf ?nss (map stateId serverStates)"
  let ?st1 = "if ?min > oldMinVersion st then st\<lparr>oldMinVersion := ?min\<rparr> else st"
  obtain gcErr gcEvents where gc:
    "(if ?min > oldMinVersion st then collectRoles client ?min else (None, [])) = (gcErr, gcEvents)"
    by (cases "if ?min > oldMinVersion st then collectRoles client ?min else (None, [])") auto
  have del: "\<forall>e \<in> set gcEvents. \<exists>key. e = Delete key"
    using gc by (auto split: if_splits dest: collectRoles_events)
  then have nset: "SetAddresses v addresses \<notin> set gcEvents" by auto
  have as1: "assignShards a ?st1 order n serverStates = assignShards a st order n serverStates" for n
    by simp
  have v1: "version ?st1 = version st" by simp
  have ne: "serverStates \<noteq> []" using run set by (auto simp: assignRolesCallback_def)
  have dec: "decodeServerStates (map Some serverStates) = Some serverStates"
    by (simp add: decodeServerStates_Some)
  from run ne have run': "(if gcErr \<noteq> None then (gcErr, gcEvents, ?st1)
      else if sameServers (oldServers ?st1) ?nss then (None, gcEvents, ?st1)
      else (case assignShards a st order (length serverStates) serverStates of
              None \<Rightarrow> (None, gcEvents @ [FailedToAssignRoles], ?st1)
            | Some (newRoles, newMasters, newReplicas) \<Rightarrow>
                (case publishRoles (storeFails client) (version st) newRoles ?nss
                        (publishOrder order) (emptyAddresses a) of
                   (Some err, events, addresses) \<Rightarrow> (Some err, gcEvents @ events, ?st1)
                 | (None, events, addresses) \<Rightarrow>
                     (let snapshot = \<lparr>addressesVersion = version st, addressesMap = addresses\<rparr>
                      in if storeFails client (SetAddresses (version st) snapshot)
                         then (Some StoreError, gcEvents @ events, ?st1)
                         else (None, gcEvents @ events @ [SetAddresses (version st) snapshot],
                               ?st1\<lparr>version := version ?st1 + 1,
                                   oldServers := dom ?nss,
                                   oldRoles := newRoles,
                                   oldMasters := newMasters,
                                   oldReplicas := newReplicas\<rparr>))))) = (err, events, st')"
    unfolding assignRolesCallback_def dec Let_def gc
    by (simp only: length_map list.size(3) length_0_conv as1 v1 option.case prod.case gc if_False)
  have g: "gcErr = None"
    using run' nset set by (auto split: if_splits)
  have ns: "\<not> sameServers (oldServers ?st1) ?nss"
    using run' nset set g by (auto split: if_splits)
  from run' g ns have run2: "(case assignShards a st order (length serverStates) serverStates of
              None \<Rightarrow> (None, gcEvents @ [FailedToAssignRoles], ?st1)
            | Some (newRoles, newMasters, newReplicas) \<Rightarrow>
                (case publishRoles (storeFails client) (version st) newRoles ?nss
                        (publishOrder order) (emptyAddresses a) of
                   (Some err, events, addresses) \<Rightarrow> (Some err, gcEvents @ events, ?st1)
                 | (None, events, addresses) \<Rightarrow>
                     (let snapshot = \<lparr>addressesVersion = version st, addressesMap = addresses\<rparr>
                      in if storeFails client (SetAddresses (version st) snapshot)
                         then (Some StoreError, gcEvents @ events, ?st1)
                         else (None, gcEvents @ events @ [SetAddresses (version st) snapshot],
                               ?st1\<lparr>version := version ?st1 + 1,
                                   oldServers := dom ?nss,
                                   oldRoles := newRoles,
                                   oldMasters := newMasters,
                                   oldReplicas := newReplicas\<rparr>)))) = (err, events, st')"
    by (simp only: if_False simp_thms)
  from run2 nset set obtain newRoles newMasters newReplicas where
    as: "assignShards a st order (length serverStates) serverStates = Some (newRoles, newMasters, newReplicas)"
    by (cases "assignShards a st order (length serverStates) serverStates") auto
  obtain perr roleEvents addrs where
    pub: "publishRoles (storeFails client) (version st) newRoles ?nss
                        (publishOrder order) (emptyAddresses a) = (perr, roleEvents, addrs)"
    by (cases "publishRoles (storeFails client) (version st) newRoles ?nss
                        (publishOrder order) (emptyAddresses a)") auto
  have nr: "SetAddresses v addresses \<notin> set roleEvents"
    using publishRoles_only_roles[OF pub] by auto
  let ?snap = "\<lparr>addressesVersion = version st, addressesMap = addrs\<rparr>"
  from run2 as pub nset nr set have pn: "perr = None"
    by (cases perr) auto
  from run2 as pub pn nset nr set have ok: "\<not> storeFails client (SetAddresses (version st) ?snap)"
    by (auto simp: Let_def split: if_splits)
  from run2 as pub pn ok have res: "err = None"
    "events = gcEvents @ roleEvents @ [SetAddresses (version st) ?snap]"
    "st' = ?st1\<lparr>version := version ?st1 + 1, oldServers := dom ?nss, oldRoles := newRoles,
                  oldMasters := newMasters, oldReplicas := newReplicas\<rparr>"
    by (auto simp: Let_def)
  from res(2) set nset nr have sa: "SetAddresses v addresses = SetAddresses (version st) ?snap"
    by auto
  show ?thesis
  proof (rule that[of gcEvents roleEvents newRoles newMasters newReplicas])
    show "events = gcEvents @ roleEvents @ [SetAddresses v addresses]" using res(2) sa by simp
    show "\<forall>e \<in> set gcEvents. \<exists>key. e = Delete key" by (rule del)
    show "assignShards a st order (length serverStates) serverStates = Some (newRoles, newMasters, newReplicas)"
      by (rule as)
    show "publishRoles (storeFails client) (version st) newRoles ?nss
       (publishOrder order) (emptyAddresses a) = (None, roleEvents, addressesMap addresses)"
      using pub pn sa by simp
    show "v = version st" "addressesVersion addresses = version st" using sa by auto
    show "err = None" by (rule res(1))
    show "version st' = version st + 1" "oldRoles st' = newRoles" "oldMasters st' = newMasters"
      "oldReplicas st' = newReplicas" "oldServers st' = stateId ` set serverStates"
      using res(3) by (simp_all add: dom_newServerStatesOf)
  qed
qed

section \<open>A run with a swap\<close>

lemma shardRange_3: "shardRange 3 = [0, 1, 2]"
proof -
  have "[0..<3] = [0, 1, Suc 1]" by (simp add: eval_nat_numeral)
  then show ?thesis by (simp add: shardRange_def)
qed

lemma shardRange_1: "shardRange 1 = [0]"
  by (simp add: shardRange_def)

lemmas run_defs =
  assignRolesCallback_def assignShards_def threeShards_def freshAssigner_def alphabetical_def
  threeServers_def quietStore_def serverStateOf_def shardRange_3 shardRange_1 replicaIterations_def
  candidates_def newRolesOf_def newServerStatesOf_def minVersionOf_def MaxInt64_def sameServers_def
  shardLocationsOf_def assignMaster_def assignReplica_def hasShard_def replicaStep_def
  swapReplica_def doSwap_def removeReplica_def MaxUint64_def emptyAddresses_def
  setMasterAddress_def addReplicaAddress_def Let_def

lemma threeServers_assigned:
  "\<exists>newMasters newReplicas. assignShards threeShards freshAssigner alphabetical 3 threeServers =
     Some ([''A'' \<mapsto> \<lparr>roleId = ''A'', roleVersion = 0, Masters = {0}, Replicas = {2}\<rparr>,
            ''B'' \<mapsto> \<lparr>roleId = ''B'', roleVersion = 0, Masters = {1}, Replicas = {0}\<rparr>,
            ''C'' \<mapsto> \<lparr>roleId = ''C'', roleVersion = 0, Masters = {2}, Replicas = {1}\<rparr>],
           newMasters, newReplicas)"
  by (simp add: run_defs fun_upd_twist)

lemma threeServers_run:
  "\<exists>events st' addresses.
     assignRolesCallback threeShards quietStore alphabetical freshAssigner (map Some threeServers)
       = (None, events, st')
     \<and> SetAddresses 0 addresses \<in> set events
     \<and> publishedRoles 0 events =
         [(''A'', \<lparr>roleId = ''A'', roleVersion = 0, Masters = {0}, Replicas = {2}\<rparr>),
          (''B'', \<lparr>roleId = ''B'', roleVersion = 0, Masters = {1}, Replicas = {0}\<rparr>),
          (''C'', \<lparr>roleId = ''C'', roleVersion = 0, Masters = {2}, Replicas = {1}\<rparr>)]
     \<and> map (\<lambda>shard. map_option Master (addressesMap addresses shard)) [0, 1, 2, 3]
         = [Some ''A:650'', Some ''B:650'', Some ''C:650'', None]
     \<and> map (\<lambda>shard. map_option ReplicaAddresses (addressesMap addresses shard)) [0, 1, 2, 3]
         = [Some {''B:650''}, Some {''C:650''}, Some {''A:650''}, None]"
  by (simp add: run_defs)

section \<open>What a publication contains\<close>

lemma published_of_callback:
  assumes run: "assignRolesCallback a client order st (map Some serverStates) = (err, events, st')"
    and set: "SetAddresses v addresses \<in> set events"
  obtains newRoles newMasters newReplicas where
    "assignShards a st order (length serverStates) serverStates = Some (newRoles, newMasters, newReplicas)"
    "publishedRoles (version st) events =
       map (\<lambda>i. (i, the (newRoles i))) (filter (\<lambda>i. newRoles i \<noteq> None) (publishOrder order))"
proof -
  from run set obtain gcEvents roleEvents newRoles newMasters newReplicas where
    ev: "events = gcEvents @ roleEvents @ [SetAddresses v addresses]"
    and del: "\<forall>e \<in> set gcEvents. \<exists>key. e = Delete key"
    and as: "assignShards a st order (length serverStates) serverStates = Some (newRoles, newMasters, newReplicas)"
    and pub: "publishRoles (storeFails client) (version st) newRoles (newServerStatesOf serverStates)
       (publishOrder order) (emptyAddresses a) = (None, roleEvents, addressesMap addresses)"
    by (rule assignRolesCallback_published) blast
  have "publishedRoles (version st) events = publishedRoles (version st) roleEvents"
    unfolding ev by (simp add: publishedRoles_append publishedRoles_deletes[OF del])
  also have "\<dots> = map (\<lambda>i. (i, the (newRoles i))) (filter (\<lambda>i. newRoles i \<noteq> None) (publishOrder order))"
    unfolding publishRoles_events[OF pub] by (rule publishedRoles_publish)
  finally show ?thesis using as that by blast
qed

lemma filter_keys_ranges:
  "ranges ks m \<Longrightarrow> dom m' = dom m \<Longrightarrow> filter (\<lambda>i. m' i \<noteq> None) ks = ks"
  by (auto simp: ranges_def filter_id_conv)

text \<open>
  C2. When a callback on a snapshot of server states wrote the addresses snapshot (the
  last write of a publication), then for every shard below \<open>numShards\<close> exactly one of the
  role records it wrote at its version holds the shard as master. \<open>publishOrder\<close> is an
  order in which \<open>range newRoles\<close> can visit the roles.
\<close>

theorem exactly_one_master_per_shard:
  assumes "assignRolesCallback a client order st (map Some serverStates) = (err, events, st')"
    and "SetAddresses v addresses \<in> set events"
    and "ranges (publishOrder order) (newRolesOf (version st) serverStates)"
    and "shard < numShards a"
  shows "length (filter (\<lambda>(id', serverRole). shard \<in> Masters serverRole)
                   (publishedRoles (version st) events)) = 1"
proof -
  from assms(1,2) obtain newRoles newMasters newReplicas where
    as: "assignShards a st order (length serverStates) serverStates = Some (newRoles, newMasters, newReplicas)"
    and pub: "publishedRoles (version st) events =
       map (\<lambda>i. (i, the (newRoles i))) (filter (\<lambda>i. newRoles i \<noteq> None) (publishOrder order))"
    by (rule published_of_callback)
  note st = assignShards_structure[OF as]
  have dom: "dom newRoles = dom (newRolesOf (version st) serverStates)"
    using st(1) by (simp add: dom_newRolesOf)
  have pub': "publishedRoles (version st) events = map (\<lambda>i. (i, the (newRoles i))) (publishOrder order)"
    unfolding pub filter_keys_ranges[OF assms(3) dom] ..
  from assms(4) st(3) obtain m where m: "newMasters shard = Some m" by auto
  have holds: "shard \<in> Masters (the (newRoles i)) \<longleftrightarrow> i = m" if "i \<in> set (publishOrder order)" for i
  proof -
    from that assms(3) dom obtain r where r: "newRoles i = Some r"
      by (auto simp: ranges_def)
    with st(2) m show ?thesis unfolding mastersAgree_def by (metis option.sel option.inject)
  qed
  from st(2) m have "m \<in> dom newRoles" unfolding mastersAgree_def by blast
  with assms(3) dom have mem: "m \<in> set (publishOrder order)" by (simp add: ranges_def)
  have dist: "distinct (publishOrder order)" using assms(3) by (simp add: ranges_def)
  have "filter (\<lambda>(id', serverRole). shard \<in> Masters serverRole) (publishedRoles (version st) events)
      = map (\<lambda>i. (i, the (newRoles i))) (filter (\<lambda>i. i = m) (publishOrder order))"
  proof -
    have "filter (\<lambda>i. shard \<in> Masters (the (newRoles i))) (publishOrder order)
        = filter (\<lambda>i. i = m) (publishOrder order)"
      using holds by (intro filter_cong) auto
    then show ?thesis unfolding pub' filter_map comp_def by simp
  qed
  moreover have "length (filter (\<lambda>i. i = m) (publishOrder order)) = 1"
  proof -
    have "{x. x = m} \<inter> set (publishOrder order) = {m}" using mem by auto
    then show ?thesis using dist by (simp add: distinct_length_filter)
  qed
  ultimately show ?thesis by simp
qed

theorem exactly_one_master_per_shard_witness:
  "\<exists>events st' addresses.
     assignRolesCallback threeShards quietStore alphabetical freshAssigner (map Some threeServers)
       = (None, events, st')
     \<and> SetAddresses 0 addresses \<in> set events
     \<and> ranges (publishOrder alphabetical) (newRolesOf (version freshAssigner) threeServers)
     \<and> (2 :: 64 word) < numShards threeShards
     \<and> length (filter (\<lambda>(id', serverRole). 2 \<in> Masters serverRole)
                 (publishedRoles (version freshAssigner) events)) = 1"
proof -
  from threeServers_run obtain events st' addresses where
    run: "assignRolesCallback threeShards quietStore alphabetical freshAssigner (map Some threeServers)
       = (None, events, st')"
    and set: "SetAddresses 0 addresses \<in> set events"
    by (elim exE conjE) (rule that)
  have rng: "ranges (publishOrder alphabetical) (newRolesOf (version freshAssigner) threeServers)"
    by (auto simp: ranges_def dom_newRolesOf alphabetical_def threeServers_def serverStateOf_def)
  have lt: "(2 :: 64 word) < numShards threeShards" by (simp add: threeShards_def)
  from exactly_one_master_per_shard[OF run set rng lt]
  have "length (filter (\<lambda>(id', serverRole). 2 \<in> Masters serverRole)
                 (publishedRoles (version freshAssigner) events)) = 1" .
  with run set rng lt show ?thesis by (intro exI conjI)
qed

text \<open>
  C3. When a callback wrote the addresses snapshot, every role record it wrote at its
  version holds the floor or the ceiling of \<open>numShards / S\<close> masters and the floor or
  the ceiling of \<open>numShards * numReplicas / S\<close> replicas, where \<open>S\<close> is the number of
  live servers (the distinct ids of the snapshot) and the product is the product of
  the numbers, not the wrapped one of the source. Swaps are steps of the replica pass
  and are covered.
\<close>

theorem master_and_replica_counts_balanced:
  assumes "assignRolesCallback a client order st (map Some serverStates) = (err, events, st')"
    and "SetAddresses v addresses \<in> set events"
    and "(id', serverRole) \<in> set (publishedRoles (version st) events)"
  shows "(card (Masters serverRole) = unat (numShards a) div card (stateId ` set serverStates)
          \<or> card (Masters serverRole) = (unat (numShards a) + card (stateId ` set serverStates) - 1)
                                   div card (stateId ` set serverStates))
     \<and> (card (Replicas serverRole)
            = (unat (numShards a) * unat (numReplicas a)) div card (stateId ` set serverStates)
          \<or> card (Replicas serverRole)
            = (unat (numShards a) * unat (numReplicas a) + card (stateId ` set serverStates) - 1)
                div card (stateId ` set serverStates))"
proof -
  from assms(1,2) obtain newRoles newMasters newReplicas where
    as: "assignShards a st order (length serverStates) serverStates = Some (newRoles, newMasters, newReplicas)"
    and pub: "publishedRoles (version st) events =
       map (\<lambda>i. (i, the (newRoles i))) (filter (\<lambda>i. newRoles i \<noteq> None) (publishOrder order))"
    by (rule published_of_callback)
  from assms(3) have r: "newRoles id' = Some serverRole"
    unfolding pub by auto
  have n: "card (stateId ` set serverStates) \<le> length serverStates"
    by (rule order_trans[OF card_image_le card_length]) simp
  from assignShards_counts[OF as n r] show ?thesis .
qed

theorem master_and_replica_counts_balanced_witness:
  "\<exists>events st' addresses.
     assignRolesCallback threeShards quietStore alphabetical freshAssigner (map Some threeServers)
       = (None, events, st')
     \<and> SetAddresses 0 addresses \<in> set events
     \<and> (''C'', \<lparr>roleId = ''C'', roleVersion = 0, Masters = {2}, Replicas = {1}\<rparr>)
         \<in> set (publishedRoles (version freshAssigner) events)
     \<and> card (Masters \<lparr>roleId = ''C'', roleVersion = 0, Masters = {2}, Replicas = {1 :: 64 word}\<rparr>) = 1
     \<and> card (Replicas \<lparr>roleId = ''C'', roleVersion = 0, Masters = {2 :: 64 word}, Replicas = {1}\<rparr>) = 1
     \<and> unat (numShards threeShards) div card (stateId ` set threeServers) = 1
     \<and> unat (numShards threeShards) * unat (numReplicas threeShards) div card (stateId ` set threeServers) = 1"
proof -
  from threeServers_run obtain events st' addresses where
    run: "assignRolesCallback threeShards quietStore alphabetical freshAssigner (map Some threeServers)
       = (None, events, st')"
    and set: "SetAddresses 0 addresses \<in> set events"
    and pub: "publishedRoles 0 events =
         [(''A'', \<lparr>roleId = ''A'', roleVersion = 0, Masters = {0}, Replicas = {2}\<rparr>),
          (''B'', \<lparr>roleId = ''B'', roleVersion = 0, Masters = {1}, Replicas = {0}\<rparr>),
          (''C'', \<lparr>roleId = ''C'', roleVersion = 0, Masters = {2}, Replicas = {1}\<rparr>)]"
    by (elim exE conjE) (rule that)
  have mem: "(''C'', \<lparr>roleId = ''C'', roleVersion = 0, Masters = {2}, Replicas = {1}\<rparr>)
         \<in> set (publishedRoles (version freshAssigner) events)"
    by (simp add: pub freshAssigner_def)
  have S: "card (stateId ` set threeServers) = 3"
    by (simp add: threeServers_def serverStateOf_def)
  from master_and_replica_counts_balanced[OF run set mem]
  have "card (Masters \<lparr>roleId = ''C'', roleVersion = 0, Masters = {2}, Replicas = {1 :: 64 word}\<rparr>) = 1
     \<and> card (Replicas \<lparr>roleId = ''C'', roleVersion = 0, Masters = {2 :: 64 word}, Replicas = {1}\<rparr>) = 1
     \<and> unat (numShards threeShards) div card (stateId ` set threeServers) = 1
     \<and> unat (numShards threeShards) * unat (numReplicas threeShards) div card (stateId ` set threeServers) = 1"
    by (simp add: S threeShards_def)
  with run set mem show ?thesis by (intro exI conjI) (elim conjE, assumption)+
qed

text \<open>
  C4. Each of \<open>assignMaster\<close>, \<open>assignReplica\<close> and \<open>swapReplica\<close> that returns \<open>true\<close> on
  roles in which no server holds a shard both as master and as replica leaves roles of
  that kind, and so are the roles that come out of the master pass and the replica pass
  with its swaps.
\<close>

theorem masters_and_replicas_disjoint:
  "(disjointRoles serverRoles \<longrightarrow>
      (\<forall>r. assignMaster serverRoles masters id1 shard1 q1 rm1 = Some r \<longrightarrow> disjointRoles (fst r))
    \<and> (\<forall>r. assignReplica serverRoles masters replicas id2 shard2 q2 rm2 = Some r \<longrightarrow> disjointRoles (fst r))
    \<and> (\<forall>r. swapReplica serverRoles masters replicas id3 shard3 q3 roleOrder shardOrder = Some r
           \<longrightarrow> disjointRoles (fst r)))
   \<and> (\<forall>r. assignShards a st order n serverStates = Some r \<longrightarrow> disjointRoles (fst r))"
proof -
  have 1: "disjointRoles (fst r)"
    if "disjointRoles serverRoles" "assignMaster serverRoles masters id1 shard1 q1 rm1 = Some r" for r
    using that assignMaster_disjoint[of serverRoles masters id1 shard1 q1 rm1 "fst r" "fst (snd r)" "snd (snd r)"]
    by simp
  have 2: "disjointRoles (fst r)"
    if "disjointRoles serverRoles" "assignReplica serverRoles masters replicas id2 shard2 q2 rm2 = Some r" for r
    using that assignReplica_disjoint[of serverRoles masters replicas id2 shard2 q2 rm2 "fst r" "fst (snd r)" "snd (snd r)"]
    by simp
  have 3: "disjointRoles (fst r)"
    if "disjointRoles serverRoles"
      "swapReplica serverRoles masters replicas id3 shard3 q3 roleOrder shardOrder = Some r" for r
    using that swapReplica_disjoint[of serverRoles masters replicas id3 shard3 q3 roleOrder shardOrder "fst r" "snd r"]
    by simp
  have 4: "disjointRoles (fst r)" if "assignShards a st order n serverStates = Some r" for r
    using that assignShards_structure(4)[of a st order n serverStates "fst r" "fst (snd r)" "snd (snd r)"]
    by simp
  from 1 2 3 4 show ?thesis by blast
qed

lemma beforeSwap_disjoint: "disjointRoles beforeSwap"
  by (auto simp: disjointRoles_def beforeSwap_def split: if_splits)

lemma beforeSwap_assignMaster: "assignMaster beforeSwap Map.empty ''C'' 3 1 1 \<noteq> None"
  by (simp add: assignMaster_def beforeSwap_def hasShard_def)

lemma beforeSwap_assignReplica: "assignReplica beforeSwap Map.empty (\<lambda>shard. []) ''C'' 0 1 0 \<noteq> None"
  by (simp add: assignReplica_def beforeSwap_def hasShard_def)

lemma beforeSwap_swapReplica:
  "swapReplica beforeSwap Map.empty (\<lambda>shard. []) ''C'' 2 1 [''A'', ''B'', ''C''] (\<lambda>swapID. [0, 1, 2]) \<noteq> None"
  by (simp add: swapReplica_def beforeSwap_def hasShard_def)

lemma threeServers_assignShards:
  "assignShards threeShards freshAssigner alphabetical 3 threeServers \<noteq> None"
  using threeServers_assigned by auto

theorem masters_and_replicas_disjoint_witness:
  "disjointRoles beforeSwap
   \<and> assignMaster beforeSwap Map.empty ''C'' 3 1 1 \<noteq> None
   \<and> disjointRoles (fst (the (assignMaster beforeSwap Map.empty ''C'' 3 1 1)))
   \<and> assignReplica beforeSwap Map.empty (\<lambda>shard. []) ''C'' 0 1 0 \<noteq> None
   \<and> disjointRoles (fst (the (assignReplica beforeSwap Map.empty (\<lambda>shard. []) ''C'' 0 1 0)))
   \<and> swapReplica beforeSwap Map.empty (\<lambda>shard. []) ''C'' 2 1 [''A'', ''B'', ''C''] (\<lambda>swapID. [0, 1, 2]) \<noteq> None
   \<and> disjointRoles (fst (the (swapReplica beforeSwap Map.empty (\<lambda>shard. []) ''C'' 2 1
                                 [''A'', ''B'', ''C''] (\<lambda>swapID. [0, 1, 2]))))
   \<and> assignShards threeShards freshAssigner alphabetical 3 threeServers \<noteq> None
   \<and> disjointRoles (fst (the (assignShards threeShards freshAssigner alphabetical 3 threeServers)))"
  using masters_and_replicas_disjoint[of beforeSwap Map.empty "''C''" 3 1 1 "\<lambda>shard. []" "''C''" 0 1 0
      "''C''" 2 1 "[''A'', ''B'', ''C'']" "\<lambda>swapID. [0, 1, 2]" threeShards freshAssigner alphabetical 3 threeServers]
    beforeSwap_disjoint beforeSwap_assignMaster beforeSwap_assignReplica beforeSwap_swapReplica
    threeServers_assignShards
  by auto

text \<open>
  C10. \<open>assignMaster\<close>, \<open>assignReplica\<close> and \<open>swapReplica\<close> return \<open>false\<close> for an id that
  is not a key of the role map they are given, and none of them adds or removes a key.
  So when a callback wrote the addresses snapshot, the role records it wrote are one
  for each live server of the snapshot and for nobody else, each under its server's id
  and at the callback's version.
\<close>

theorem roles_only_for_live_servers:
  "(serverRoles id' = None \<longrightarrow>
      assignMaster serverRoles masters id' shard q rm = None
      \<and> assignReplica serverRoles masters replicas id' shard q rm = None
      \<and> swapReplica serverRoles masters replicas id' shard q roleOrder shardOrder = None)
   \<and> (\<forall>r. assignMaster serverRoles masters id1 shard1 q1 rm1 = Some r \<longrightarrow> dom (fst r) = dom serverRoles)
   \<and> (\<forall>r. assignReplica serverRoles masters replicas id2 shard2 q2 rm2 = Some r \<longrightarrow> dom (fst r) = dom serverRoles)
   \<and> (\<forall>r. swapReplica serverRoles masters replicas id3 shard3 q3 roleOrder shardOrder = Some r
          \<longrightarrow> dom (fst r) = dom serverRoles)
   \<and> (assignRolesCallback a client order st (map Some serverStates) = (err, events, st')
       \<and> SetAddresses v addresses \<in> set events
       \<and> ranges (publishOrder order) (newRolesOf (version st) serverStates)
       \<longrightarrow> distinct (map fst (publishedRoles (version st) events))
           \<and> set (map fst (publishedRoles (version st) events)) = stateId ` set serverStates
           \<and> (\<forall>(i, r) \<in> set (publishedRoles (version st) events). roleId r = i \<and> roleVersion r = version st)
           \<and> (\<forall>i v' r. SetServerRole i v' r \<in> set events
                 \<longrightarrow> v' = version st \<and> (i, r) \<in> set (publishedRoles (version st) events)))"
proof -
  have 1: "assignMaster serverRoles masters id' shard q rm = None
      \<and> assignReplica serverRoles masters replicas id' shard q rm = None
      \<and> swapReplica serverRoles masters replicas id' shard q roleOrder shardOrder = None"
    if "serverRoles id' = None"
    using that by (simp add: assignMaster_def assignReplica_def swapReplica_def)
  have 2: "dom (fst r) = dom serverRoles"
    if "assignMaster serverRoles masters id1 shard1 q1 rm1 = Some r" for r
    using that assignMaster_dom[of serverRoles masters id1 shard1 q1 rm1 "fst r" "fst (snd r)" "snd (snd r)"]
    by simp
  have 3: "dom (fst r) = dom serverRoles"
    if "assignReplica serverRoles masters replicas id2 shard2 q2 rm2 = Some r" for r
    using that assignReplica_dom[of serverRoles masters replicas id2 shard2 q2 rm2 "fst r" "fst (snd r)" "snd (snd r)"]
    by simp
  have 4: "dom (fst r) = dom serverRoles"
    if "swapReplica serverRoles masters replicas id3 shard3 q3 roleOrder shardOrder = Some r" for r
    using that swapReplica_dom[of serverRoles masters replicas id3 shard3 q3 roleOrder shardOrder "fst r" "snd r"]
    by simp
  have 5: "distinct (map fst (publishedRoles (version st) events))
           \<and> set (map fst (publishedRoles (version st) events)) = stateId ` set serverStates
           \<and> (\<forall>(i, r) \<in> set (publishedRoles (version st) events). roleId r = i \<and> roleVersion r = version st)
           \<and> (\<forall>i v' r. SetServerRole i v' r \<in> set events
                 \<longrightarrow> v' = version st \<and> (i, r) \<in> set (publishedRoles (version st) events))"
    if run: "assignRolesCallback a client order st (map Some serverStates) = (err, events, st')"
      and set: "SetAddresses v addresses \<in> set events"
      and rng: "ranges (publishOrder order) (newRolesOf (version st) serverStates)"
  proof -
    from run set obtain gcEvents roleEvents newRoles newMasters newReplicas where
      ev: "events = gcEvents @ roleEvents @ [SetAddresses v addresses]"
      and del: "\<forall>e \<in> set gcEvents. \<exists>key. e = Delete key"
      and as: "assignShards a st order (length serverStates) serverStates = Some (newRoles, newMasters, newReplicas)"
      and pub: "publishRoles (storeFails client) (version st) newRoles (newServerStatesOf serverStates)
         (publishOrder order) (emptyAddresses a) = (None, roleEvents, addressesMap addresses)"
      by (rule assignRolesCallback_published) blast
    note st = assignShards_structure[OF as]
    have dom: "dom newRoles = dom (newRolesOf (version st) serverStates)"
      using st(1) by (simp add: dom_newRolesOf)
    have re: "roleEvents = map (\<lambda>i. SetServerRole i (version st) (the (newRoles i))) (publishOrder order)"
      using publishRoles_events[OF pub] filter_keys_ranges[OF rng dom] by simp
    have pr: "publishedRoles (version st) events = map (\<lambda>i. (i, the (newRoles i))) (publishOrder order)"
      unfolding ev re
      by (simp add: publishedRoles_append publishedRoles_deletes[OF del] publishedRoles_publish)
    have a: "map fst (publishedRoles (version st) events) = publishOrder order"
      unfolding pr by (simp add: comp_def)
    have b: "distinct (publishOrder order)" "set (publishOrder order) = stateId ` set serverStates"
      using rng by (auto simp: ranges_def dom_newRolesOf)
    have c: "roleId r = i \<and> roleVersion r = version st"
      if "(i, r) \<in> set (publishedRoles (version st) events)" for i r
    proof -
      from that have "i \<in> set (publishOrder order)" "r = the (newRoles i)" unfolding pr by auto
      moreover from this(1) b(2) st(1) have "i \<in> dom newRoles" by simp
      ultimately have "newRoles i = Some r" by (auto simp: dom_def)
      from st(5)[OF this] show ?thesis by simp
    qed
    have d: "v' = version st \<and> (i, r) \<in> set (publishedRoles (version st) events)"
      if "SetServerRole i v' r \<in> set events" for i v' r
    proof -
      from that del have "SetServerRole i v' r \<in> set roleEvents" unfolding ev by auto
      then show ?thesis unfolding re pr by auto
    qed
    have e: "distinct (map fst (publishedRoles (version st) events))"
      "set (map fst (publishedRoles (version st) events)) = stateId ` set serverStates"
      using a b by simp_all
    have f: "\<forall>(i, r) \<in> set (publishedRoles (version st) events). roleId r = i \<and> roleVersion r = version st"
      using c by blast
    have g: "\<forall>i v' r. SetServerRole i v' r \<in> set events
                 \<longrightarrow> v' = version st \<and> (i, r) \<in> set (publishedRoles (version st) events)"
      using d by blast
    from e f g show ?thesis by (intro conjI)
  qed
  from 1 2 3 4 5 show ?thesis by blast
qed

theorem roles_only_for_live_servers_witness:
  "beforeSwap ''D'' = None
   \<and> assignMaster beforeSwap Map.empty ''D'' 3 1 1 = None
   \<and> assignReplica beforeSwap Map.empty (\<lambda>shard. []) ''D'' 3 1 1 = None
   \<and> swapReplica beforeSwap Map.empty (\<lambda>shard. []) ''D'' 3 1 [''A'', ''B'', ''C''] (\<lambda>swapID. [0, 1, 2]) = None
   \<and> assignMaster beforeSwap Map.empty ''C'' 3 1 1 \<noteq> None
   \<and> dom (fst (the (assignMaster beforeSwap Map.empty ''C'' 3 1 1))) = dom beforeSwap
   \<and> assignReplica beforeSwap Map.empty (\<lambda>shard. []) ''C'' 0 1 0 \<noteq> None
   \<and> dom (fst (the (assignReplica beforeSwap Map.empty (\<lambda>shard. []) ''C'' 0 1 0))) = dom beforeSwap
   \<and> swapReplica beforeSwap Map.empty (\<lambda>shard. []) ''C'' 2 1 [''A'', ''B'', ''C''] (\<lambda>swapID. [0, 1, 2]) \<noteq> None
   \<and> dom (fst (the (swapReplica beforeSwap Map.empty (\<lambda>shard. []) ''C'' 2 1
                        [''A'', ''B'', ''C''] (\<lambda>swapID. [0, 1, 2])))) = dom beforeSwap
   \<and> (\<exists>events st' addresses.
         assignRolesCallback threeShards quietStore alphabetical freshAssigner (map Some threeServers)
           = (None, events, st')
         \<and> SetAddresses 0 addresses \<in> set events
         \<and> ranges (publishOrder alphabetical) (newRolesOf (version freshAssigner) threeServers)
         \<and> distinct (map fst (publishedRoles (version freshAssigner) events))
         \<and> set (map fst (publishedRoles (version freshAssigner) events)) = stateId ` set threeServers)"
proof -
  from threeServers_run obtain events st' addresses where
    run: "assignRolesCallback threeShards quietStore alphabetical freshAssigner (map Some threeServers)
       = (None, events, st')"
    and set: "SetAddresses 0 addresses \<in> set events"
    by (elim exE conjE) (rule that)
  have rng: "ranges (publishOrder alphabetical) (newRolesOf (version freshAssigner) threeServers)"
    by (auto simp: ranges_def dom_newRolesOf alphabetical_def threeServers_def serverStateOf_def)
  have none: "beforeSwap ''D'' = None" by (simp add: beforeSwap_def)
  note inst = roles_only_for_live_servers[where serverRoles = beforeSwap and masters = Map.empty
      and replicas = "\<lambda>shard. []" and id' = "''D''" and shard = 3 and q = 1 and rm = 1
      and roleOrder = "[''A'', ''B'', ''C'']" and shardOrder = "\<lambda>swapID. [0, 1, 2]"
      and ?id1.0 = "''C''" and ?shard1.0 = 3 and ?q1.0 = 1 and ?rm1.0 = 1
      and ?id2.0 = "''C''" and ?shard2.0 = 0 and ?q2.0 = 1 and ?rm2.0 = 0
      and ?id3.0 = "''C''" and ?shard3.0 = 2 and ?q3.0 = 1
      and a = threeShards and client = quietStore and order = alphabetical and st = freshAssigner
      and serverStates = threeServers and err = None and events = events and st' = st'
      and v = 0 and addresses = addresses]
  have A: "assignMaster beforeSwap Map.empty ''D'' 3 1 1 = None
   \<and> assignReplica beforeSwap Map.empty (\<lambda>shard. []) ''D'' 3 1 1 = None
   \<and> swapReplica beforeSwap Map.empty (\<lambda>shard. []) ''D'' 3 1 [''A'', ''B'', ''C''] (\<lambda>swapID. [0, 1, 2]) = None"
    by (rule inst[THEN conjunct1, rule_format, OF none])
  from beforeSwap_assignMaster obtain r1 where r1: "assignMaster beforeSwap Map.empty ''C'' 3 1 1 = Some r1"
    by (cases "assignMaster beforeSwap Map.empty ''C'' 3 1 1") simp_all
  have B: "dom (fst (the (assignMaster beforeSwap Map.empty ''C'' 3 1 1))) = dom beforeSwap"
    using inst[THEN conjunct2, THEN conjunct1, rule_format, OF r1] unfolding r1 option.sel .
  from beforeSwap_assignReplica obtain r2 where
    r2: "assignReplica beforeSwap Map.empty (\<lambda>shard. []) ''C'' 0 1 0 = Some r2"
    by (cases "assignReplica beforeSwap Map.empty (\<lambda>shard. []) ''C'' 0 1 0") simp_all
  have C: "dom (fst (the (assignReplica beforeSwap Map.empty (\<lambda>shard. []) ''C'' 0 1 0))) = dom beforeSwap"
    using inst[THEN conjunct2, THEN conjunct2, THEN conjunct1, rule_format, OF r2] unfolding r2 option.sel .
  from beforeSwap_swapReplica obtain r3 where
    r3: "swapReplica beforeSwap Map.empty (\<lambda>shard. []) ''C'' 2 1 [''A'', ''B'', ''C''] (\<lambda>swapID. [0, 1, 2]) = Some r3"
    by (cases "swapReplica beforeSwap Map.empty (\<lambda>shard. []) ''C'' 2 1 [''A'', ''B'', ''C''] (\<lambda>swapID. [0, 1, 2])")
       simp_all
  have D: "dom (fst (the (swapReplica beforeSwap Map.empty (\<lambda>shard. []) ''C'' 2 1
                        [''A'', ''B'', ''C''] (\<lambda>swapID. [0, 1, 2])))) = dom beforeSwap"
    using inst[THEN conjunct2, THEN conjunct2, THEN conjunct2, THEN conjunct1, rule_format, OF r3]
    unfolding r3 option.sel .
  note pubd = inst[THEN conjunct2, THEN conjunct2, THEN conjunct2, THEN conjunct2, THEN mp,
      OF conjI[OF run conjI[OF set rng]]]
  have E: "distinct (map fst (publishedRoles (version freshAssigner) events))
         \<and> set (map fst (publishedRoles (version freshAssigner) events)) = stateId ` set threeServers"
    using pubd[THEN conjunct1] pubd[THEN conjunct2, THEN conjunct1] by (rule conjI)
  from run set rng E have F: "\<exists>events st' addresses.
         assignRolesCallback threeShards quietStore alphabetical freshAssigner (map Some threeServers)
           = (None, events, st')
         \<and> SetAddresses 0 addresses \<in> set events
         \<and> ranges (publishOrder alphabetical) (newRolesOf (version freshAssigner) threeServers)
         \<and> distinct (map fst (publishedRoles (version freshAssigner) events))
         \<and> set (map fst (publishedRoles (version freshAssigner) events)) = stateId ` set threeServers"
    by (intro exI conjI) (elim conjE, assumption)+
  from none A B C D F beforeSwap_assignMaster beforeSwap_assignReplica beforeSwap_swapReplica
  show ?thesis by (intro conjI) (elim conjE, assumption)+
qed

section \<open>The addresses snapshot\<close>

lemma emptyAddresses_apply:
  "emptyAddresses a shard =
     (if shard < numShards a then Some \<lparr>Master = [], ReplicaAddresses = {}\<rparr> else None)"
  unfolding emptyAddresses_def
  using foldl_upd_key[where k = "\<lambda>x. x" and g = "\<lambda>x. \<lparr>Master = [], ReplicaAddresses = {}\<rparr>"
      and ?m0.0 = Map.empty and xs = "shardRange (numShards a)" and i = shard]
  by (simp add: set_shardRange)

lemma publishRoles_ConsD:
  assumes "publishRoles fails v newRoles newServerStates (i # ids) addresses = (None, events, addresses')"
    and "newRoles i = Some r"
  obtains s events1 where
    "newServerStates i = Some s"
    "publishRoles fails v newRoles newServerStates ids
       (addReplicaAddress (stateAddress s) (Replicas r)
          (setMasterAddress (stateAddress s) (Masters r) addresses))
     = (None, events1, addresses')"
    "events = SetServerRole i v r # events1"
proof (cases "newServerStates i")
  case None
  with assms show ?thesis by (simp split: if_splits)
next
  case (Some s)
  obtain err1 events1 addresses1 where
    rest: "publishRoles fails v newRoles newServerStates ids
       (addReplicaAddress (stateAddress s) (Replicas r)
          (setMasterAddress (stateAddress s) (Masters r) addresses))
     = (err1, events1, addresses1)"
    by (cases "publishRoles fails v newRoles newServerStates ids
       (addReplicaAddress (stateAddress s) (Replicas r)
          (setMasterAddress (stateAddress s) (Masters r) addresses))") auto
  from assms Some rest have "err1 = None" "addresses1 = addresses'" "events = SetServerRole i v r # events1"
    by (simp_all split: if_splits)
  with Some rest that show ?thesis by simp
qed

lemma publishRoles_missing:
  "publishRoles fails v newRoles newServerStates ids addresses = (None, events, addresses')
     \<Longrightarrow> addresses shard = None \<Longrightarrow> addresses' shard = None"
proof (induction ids arbitrary: addresses events)
  case Nil
  then show ?case by simp
next
  case (Cons i ids)
  show ?case
  proof (cases "newRoles i")
    case None
    with Cons show ?thesis by simp
  next
    case (Some serverRole)
    from Cons.prems(1) Some obtain serverState events1 where
      "newServerStates i = Some serverState"
      and rest: "publishRoles fails v newRoles newServerStates ids
           (addReplicaAddress (stateAddress serverState) (Replicas serverRole)
              (setMasterAddress (stateAddress serverState) (Masters serverRole) addresses))
         = (None, events1, addresses')"
      and "events = SetServerRole i v serverRole # events1"
      by (rule publishRoles_ConsD)
    have "addReplicaAddress (stateAddress serverState) (Replicas serverRole)
              (setMasterAddress (stateAddress serverState) (Masters serverRole) addresses) shard = None"
      using Cons.prems(2) by (simp add: addReplicaAddress_def setMasterAddress_def)
    from Cons.IH[OF rest this] show ?thesis .
  qed
qed

lemma replicaAddresses_Cons_None:
  assumes "newRoles i0 = None"
  shows "{stateAddress s |i r s. i \<in> set (i0 # ids) \<and> newRoles i = Some r \<and> newServerStates i = Some s
                                  \<and> shard \<in> Replicas r}
        = {stateAddress s |i r s. i \<in> set ids \<and> newRoles i = Some r \<and> newServerStates i = Some s
                                  \<and> shard \<in> Replicas r}"
proof -
  have "i \<in> set ids" if "i \<in> set (i0 # ids)" "newRoles i = Some r" for i r
    using that assms by auto
  then show ?thesis by (intro Collect_cong) (metis list.set_intros(2))
qed

lemma replicaAddresses_Cons_Some:
  assumes "newRoles i0 = Some r0" "newServerStates i0 = Some s0"
  shows "{stateAddress s |i r s. i \<in> set (i0 # ids) \<and> newRoles i = Some r \<and> newServerStates i = Some s
                                  \<and> shard \<in> Replicas r}
        = (if shard \<in> Replicas r0 then {stateAddress s0} else {}) \<union>
          {stateAddress s |i r s. i \<in> set ids \<and> newRoles i = Some r \<and> newServerStates i = Some s
                                  \<and> shard \<in> Replicas r}"
  (is "?L = ?R")
proof (rule set_eqI)
  fix x
  show "x \<in> ?L \<longleftrightarrow> x \<in> ?R"
  proof
    assume "x \<in> ?L"
    then obtain i r s where x: "x = stateAddress s" and i: "i \<in> set (i0 # ids)"
      and r: "newRoles i = Some r" and s: "newServerStates i = Some s" and sh: "shard \<in> Replicas r"
      by blast
    show "x \<in> ?R"
    proof (cases "i = i0")
      case True
      with assms r s sh x show ?thesis by simp
    next
      case False
      with i have "i \<in> set ids" by simp
      with x r s sh show ?thesis by blast
    qed
  next
    assume "x \<in> ?R"
    then consider "shard \<in> Replicas r0" "x = stateAddress s0"
      | i r s where "x = stateAddress s" "i \<in> set ids" "newRoles i = Some r" "newServerStates i = Some s"
          "shard \<in> Replicas r"
      by (auto split: if_splits)
    then show "x \<in> ?L"
    proof cases
      case 1
      with assms show ?thesis by (intro CollectI exI[of _ i0] exI[of _ r0] exI[of _ s0]) simp
    next
      case 2
      then show ?thesis by (intro CollectI exI[of _ i] exI[of _ r] exI[of _ s]) simp
    qed
  qed
qed

lemma publishRoles_entry:
  assumes "publishRoles fails v newRoles newServerStates ids addresses = (None, events, addresses')"
    and "addresses shard = Some entry"
  shows "\<exists>entry'. addresses' shard = Some entry'
     \<and> ReplicaAddresses entry' = ReplicaAddresses entry \<union>
          {stateAddress s |i r s. i \<in> set ids \<and> newRoles i = Some r \<and> newServerStates i = Some s
                                  \<and> shard \<in> Replicas r}
     \<and> ((\<forall>i \<in> set ids. \<forall>r. newRoles i = Some r \<longrightarrow> shard \<notin> Masters r) \<longrightarrow> Master entry' = Master entry)
     \<and> (\<forall>i r s. i \<in> set ids \<and> newRoles i = Some r \<and> shard \<in> Masters r \<and> newServerStates i = Some s
           \<and> (\<forall>j \<in> set ids. \<forall>r'. newRoles j = Some r' \<and> shard \<in> Masters r' \<longrightarrow> j = i)
           \<longrightarrow> Master entry' = stateAddress s)"
  using assms
proof (induction ids arbitrary: addresses events entry)
  case Nil
  then show ?case by simp
next
  case (Cons i0 ids)
  show ?case
  proof (cases "newRoles i0")
    case None
    with Cons.prems have rest: "publishRoles fails v newRoles newServerStates ids addresses = (None, events, addresses')"
      by simp
    from Cons.IH[OF rest Cons.prems(2)] obtain entry' where
      e: "addresses' shard = Some entry'"
      and rp: "ReplicaAddresses entry' = ReplicaAddresses entry \<union>
          {stateAddress s |i r s. i \<in> set ids \<and> newRoles i = Some r \<and> newServerStates i = Some s
                                  \<and> shard \<in> Replicas r}"
      and m0: "(\<forall>i \<in> set ids. \<forall>r. newRoles i = Some r \<longrightarrow> shard \<notin> Masters r) \<longrightarrow> Master entry' = Master entry"
      and m1: "\<forall>i r s. i \<in> set ids \<and> newRoles i = Some r \<and> shard \<in> Masters r \<and> newServerStates i = Some s
           \<and> (\<forall>j \<in> set ids. \<forall>r'. newRoles j = Some r' \<and> shard \<in> Masters r' \<longrightarrow> j = i)
           \<longrightarrow> Master entry' = stateAddress s"
      by (elim exE conjE) (rule that)
    have R: "ReplicaAddresses entry' = ReplicaAddresses entry \<union>
          {stateAddress s |i r s. i \<in> set (i0 # ids) \<and> newRoles i = Some r \<and> newServerStates i = Some s
                                  \<and> shard \<in> Replicas r}"
      unfolding replicaAddresses_Cons_None[of newRoles i0 ids newServerStates shard, OF None]
      by (rule rp)
    have M0: "(\<forall>i \<in> set (i0 # ids). \<forall>r. newRoles i = Some r \<longrightarrow> shard \<notin> Masters r) \<longrightarrow> Master entry' = Master entry"
      using m0 by simp
    have M1: "\<forall>i r s. i \<in> set (i0 # ids) \<and> newRoles i = Some r \<and> shard \<in> Masters r \<and> newServerStates i = Some s
           \<and> (\<forall>j \<in> set (i0 # ids). \<forall>r'. newRoles j = Some r' \<and> shard \<in> Masters r' \<longrightarrow> j = i)
           \<longrightarrow> Master entry' = stateAddress s"
    proof (intro allI impI, elim conjE)
      fix i r s
      assume i: "i \<in> set (i0 # ids)" and r: "newRoles i = Some r" and sh: "shard \<in> Masters r"
        and s: "newServerStates i = Some s"
        and u: "\<forall>j \<in> set (i0 # ids). \<forall>r'. newRoles j = Some r' \<and> shard \<in> Masters r' \<longrightarrow> j = i"
      from i r None have mem: "i \<in> set ids" by auto
      from u have u': "\<forall>j \<in> set ids. \<forall>r'. newRoles j = Some r' \<and> shard \<in> Masters r' \<longrightarrow> j = i"
        by simp
      show "Master entry' = stateAddress s"
        by (rule m1[rule_format, of i r s]) (intro conjI mem r sh s u')
    qed
    from e R M0 M1 show ?thesis by (intro exI[of _ entry'] conjI)
  next
    case (Some r0)
    from Cons.prems(1) Some obtain s0 events1 where
      s0: "newServerStates i0 = Some s0"
      and rest: "publishRoles fails v newRoles newServerStates ids
           (addReplicaAddress (stateAddress s0) (Replicas r0)
              (setMasterAddress (stateAddress s0) (Masters r0) addresses))
         = (None, events1, addresses')"
      and "events = SetServerRole i0 v r0 # events1"
      by (rule publishRoles_ConsD)
    let ?entry1 = "entry\<lparr>Master := if shard \<in> Masters r0 then stateAddress s0 else Master entry,
        ReplicaAddresses := if shard \<in> Replicas r0 then insert (stateAddress s0) (ReplicaAddresses entry)
                            else ReplicaAddresses entry\<rparr>"
    have a1: "addReplicaAddress (stateAddress s0) (Replicas r0)
              (setMasterAddress (stateAddress s0) (Masters r0) addresses) shard = Some ?entry1"
      using Cons.prems(2) by (simp add: addReplicaAddress_def setMasterAddress_def)
    from Cons.IH[OF rest a1] obtain entry' where
      e: "addresses' shard = Some entry'"
      and rp: "ReplicaAddresses entry' = ReplicaAddresses ?entry1 \<union>
          {stateAddress s |i r s. i \<in> set ids \<and> newRoles i = Some r \<and> newServerStates i = Some s
                                  \<and> shard \<in> Replicas r}"
      and m0: "(\<forall>i \<in> set ids. \<forall>r. newRoles i = Some r \<longrightarrow> shard \<notin> Masters r) \<longrightarrow> Master entry' = Master ?entry1"
      and m1: "\<forall>i r s. i \<in> set ids \<and> newRoles i = Some r \<and> shard \<in> Masters r \<and> newServerStates i = Some s
           \<and> (\<forall>j \<in> set ids. \<forall>r'. newRoles j = Some r' \<and> shard \<in> Masters r' \<longrightarrow> j = i)
           \<longrightarrow> Master entry' = stateAddress s"
      by (elim exE conjE) (rule that)
    have R: "ReplicaAddresses entry' = ReplicaAddresses entry \<union>
          {stateAddress s |i r s. i \<in> set (i0 # ids) \<and> newRoles i = Some r \<and> newServerStates i = Some s
                                  \<and> shard \<in> Replicas r}"
      unfolding rp replicaAddresses_Cons_Some[of newRoles i0 r0 newServerStates s0 ids shard, OF Some s0]
      by (cases "shard \<in> Replicas r0") simp_all
    have M0: "(\<forall>i \<in> set (i0 # ids). \<forall>r. newRoles i = Some r \<longrightarrow> shard \<notin> Masters r) \<longrightarrow> Master entry' = Master entry"
    proof
      assume a: "\<forall>i \<in> set (i0 # ids). \<forall>r. newRoles i = Some r \<longrightarrow> shard \<notin> Masters r"
      then have "shard \<notin> Masters r0" using Some by simp
      moreover from a have "\<forall>i \<in> set ids. \<forall>r. newRoles i = Some r \<longrightarrow> shard \<notin> Masters r" by simp
      with m0 have "Master entry' = Master ?entry1" by (rule mp)
      ultimately show "Master entry' = Master entry" by simp
    qed
    have M1: "\<forall>i r s. i \<in> set (i0 # ids) \<and> newRoles i = Some r \<and> shard \<in> Masters r \<and> newServerStates i = Some s
           \<and> (\<forall>j \<in> set (i0 # ids). \<forall>r'. newRoles j = Some r' \<and> shard \<in> Masters r' \<longrightarrow> j = i)
           \<longrightarrow> Master entry' = stateAddress s"
    proof (intro allI impI, elim conjE)
      fix i r s
      assume i: "i \<in> set (i0 # ids)" and r: "newRoles i = Some r" and sh: "shard \<in> Masters r"
        and s: "newServerStates i = Some s"
        and u: "\<forall>j \<in> set (i0 # ids). \<forall>r'. newRoles j = Some r' \<and> shard \<in> Masters r' \<longrightarrow> j = i"
      show "Master entry' = stateAddress s"
      proof (cases "i \<in> set ids")
        case True
        from u have u': "\<forall>j \<in> set ids. \<forall>r'. newRoles j = Some r' \<and> shard \<in> Masters r' \<longrightarrow> j = i"
          by simp
        show ?thesis
          by (rule m1[rule_format, of i r s]) (intro conjI True r sh s u')
      next
        case False
        with i have i0: "i = i0" by simp
        have "\<forall>j \<in> set ids. \<forall>r'. newRoles j = Some r' \<longrightarrow> shard \<notin> Masters r'"
        proof (intro ballI allI impI)
          fix j r' assume j: "j \<in> set ids" and r': "newRoles j = Some r'"
          show "shard \<notin> Masters r'"
          proof
            assume "shard \<in> Masters r'"
            with u j r' have "j = i" by simp
            with j False show False by simp
          qed
        qed
        with m0 have "Master entry' = Master ?entry1" by (rule mp)
        with i0 r sh s Some s0 show ?thesis by simp
      qed
    qed
    from e R M0 M1 show ?thesis by (intro exI[of _ entry'] conjI)
  qed
qed

text \<open>
  C9. The addresses snapshot a callback wrote carries the callback's version and has an
  entry exactly for the shards below \<open>numShards\<close>. The entry of such a shard names as
  master the address of a server whose role record, written by this callback, holds the
  shard as master (there is one such record, by C2), and its replicas are the addresses of
  the servers whose role records hold the shard as replica. The address of a server is
  the one in its state in the snapshot.
\<close>

theorem addresses_snapshot_matches_roles:
  assumes "assignRolesCallback a client order st (map Some serverStates) = (err, events, st')"
    and "SetAddresses v addresses \<in> set events"
    and "ranges (publishOrder order) (newRolesOf (version st) serverStates)"
  shows "addressesVersion addresses = version st
     \<and> dom (addressesMap addresses) = {shard. shard < numShards a}
     \<and> (\<forall>shard. shard < numShards a \<longrightarrow>
          (\<exists>entry. addressesMap addresses shard = Some entry
             \<and> (\<exists>id' serverRole serverState.
                   (id', serverRole) \<in> set (publishedRoles (version st) events)
                   \<and> shard \<in> Masters serverRole
                   \<and> newServerStatesOf serverStates id' = Some serverState
                   \<and> Master entry = stateAddress serverState)
             \<and> ReplicaAddresses entry =
                 {stateAddress serverState |id' serverRole serverState.
                    (id', serverRole) \<in> set (publishedRoles (version st) events)
                    \<and> shard \<in> Replicas serverRole
                    \<and> newServerStatesOf serverStates id' = Some serverState}))"
proof -
  let ?nss = "newServerStatesOf serverStates"
  from assms(1,2) obtain gcEvents roleEvents newRoles newMasters newReplicas where
    ev: "events = gcEvents @ roleEvents @ [SetAddresses v addresses]"
    and del: "\<forall>e \<in> set gcEvents. \<exists>key. e = Delete key"
    and as: "assignShards a st order (length serverStates) serverStates = Some (newRoles, newMasters, newReplicas)"
    and pub: "publishRoles (storeFails client) (version st) newRoles ?nss
       (publishOrder order) (emptyAddresses a) = (None, roleEvents, addressesMap addresses)"
    and ver: "addressesVersion addresses = version st"
    by (rule assignRolesCallback_published) blast
  note st = assignShards_structure[OF as]
  have dom: "dom newRoles = dom (newRolesOf (version st) serverStates)"
    using st(1) by (simp add: dom_newRolesOf)
  have keys: "set (publishOrder order) = dom newRoles" using assms(3) dom by (simp add: ranges_def)
  have pr: "publishedRoles (version st) events = map (\<lambda>i. (i, the (newRoles i))) (publishOrder order)"
    unfolding ev publishRoles_events[OF pub] filter_keys_ranges[OF assms(3) dom]
    by (simp add: publishedRoles_append publishedRoles_deletes[OF del] publishedRoles_publish)
  have mem: "(i, r) \<in> set (publishedRoles (version st) events) \<longleftrightarrow> i \<in> set (publishOrder order) \<and> newRoles i = Some r"
    for i r
    unfolding pr using keys by auto
  have D: "dom (addressesMap addresses) = {shard. shard < numShards a}"
  proof (rule set_eqI)
    fix shard
    show "shard \<in> dom (addressesMap addresses) \<longleftrightarrow> shard \<in> {shard. shard < numShards a}"
    proof (cases "shard < numShards a")
      case True
      then have "emptyAddresses a shard = Some \<lparr>Master = [], ReplicaAddresses = {}\<rparr>"
        by (simp add: emptyAddresses_apply)
      from publishRoles_entry[OF pub this] True show ?thesis by auto
    next
      case False
      then have "emptyAddresses a shard = None" by (simp add: emptyAddresses_apply)
      from publishRoles_missing[OF pub this] False show ?thesis by auto
    qed
  qed
  have E: "\<exists>entry. addressesMap addresses shard = Some entry
             \<and> (\<exists>id' serverRole serverState.
                   (id', serverRole) \<in> set (publishedRoles (version st) events)
                   \<and> shard \<in> Masters serverRole
                   \<and> ?nss id' = Some serverState
                   \<and> Master entry = stateAddress serverState)
             \<and> ReplicaAddresses entry =
                 {stateAddress serverState |id' serverRole serverState.
                    (id', serverRole) \<in> set (publishedRoles (version st) events)
                    \<and> shard \<in> Replicas serverRole
                    \<and> ?nss id' = Some serverState}"
    if lt: "shard < numShards a" for shard
  proof -
    from lt have e0: "emptyAddresses a shard = Some \<lparr>Master = [], ReplicaAddresses = {}\<rparr>"
      by (simp add: emptyAddresses_apply)
    from publishRoles_entry[OF pub e0] obtain entry where
      e: "addressesMap addresses shard = Some entry"
      and rp: "ReplicaAddresses entry = ReplicaAddresses \<lparr>Master = [], ReplicaAddresses = {}\<rparr> \<union>
          {stateAddress s |i r s. i \<in> set (publishOrder order) \<and> newRoles i = Some r \<and> ?nss i = Some s
                                  \<and> shard \<in> Replicas r}"
      and m1: "\<forall>i r s. i \<in> set (publishOrder order) \<and> newRoles i = Some r \<and> shard \<in> Masters r \<and> ?nss i = Some s
           \<and> (\<forall>j \<in> set (publishOrder order). \<forall>r'. newRoles j = Some r' \<and> shard \<in> Masters r' \<longrightarrow> j = i)
           \<longrightarrow> Master entry = stateAddress s"
      by (elim exE conjE) (rule that)
    from lt st(3) obtain m where m: "newMasters shard = Some m" by auto
    with st(2) obtain rm where rm: "newRoles m = Some rm" "shard \<in> Masters rm"
      unfolding mastersAgree_def by blast
    from rm(1) keys have mk: "m \<in> set (publishOrder order)" by auto
    from rm(1) st(1) have "m \<in> dom ?nss" by (auto simp: dom_newServerStatesOf)
    then obtain sm where sm: "?nss m = Some sm" by auto
    have uniq: "\<forall>j \<in> set (publishOrder order). \<forall>r'. newRoles j = Some r' \<and> shard \<in> Masters r' \<longrightarrow> j = m"
    proof (intro ballI allI impI, elim conjE)
      fix j r' assume "newRoles j = Some r'" "shard \<in> Masters r'"
      with st(2) have "newMasters shard = Some j" unfolding mastersAgree_def by blast
      with m show "j = m" by simp
    qed
    have M: "Master entry = stateAddress sm"
      by (rule m1[rule_format, of m rm sm]) (intro conjI mk rm sm uniq)
    have "(m, rm) \<in> set (publishedRoles (version st) events)" using mk rm(1) by (simp add: mem)
    with rm(2) sm M have M': "\<exists>id' serverRole serverState.
                   (id', serverRole) \<in> set (publishedRoles (version st) events)
                   \<and> shard \<in> Masters serverRole
                   \<and> ?nss id' = Some serverState
                   \<and> Master entry = stateAddress serverState"
      by (intro exI[of _ m] exI[of _ rm] exI[of _ sm] conjI)
    have R: "ReplicaAddresses entry =
                 {stateAddress serverState |id' serverRole serverState.
                    (id', serverRole) \<in> set (publishedRoles (version st) events)
                    \<and> shard \<in> Replicas serverRole
                    \<and> ?nss id' = Some serverState}"
    proof -
      have "{stateAddress s |i r s. i \<in> set (publishOrder order) \<and> newRoles i = Some r \<and> ?nss i = Some s
                                  \<and> shard \<in> Replicas r}
          = {stateAddress serverState |id' serverRole serverState.
                    (id', serverRole) \<in> set (publishedRoles (version st) events)
                    \<and> shard \<in> Replicas serverRole
                    \<and> ?nss id' = Some serverState}"
        unfolding mem by (intro Collect_cong) metis
      with rp show ?thesis by (simp only: ShardAddresses.simps Un_empty_left)
    qed
    from e M' R show ?thesis by (intro exI[of _ entry] conjI)
  qed
  from ver D E show ?thesis by (intro conjI allI impI)
qed

theorem addresses_snapshot_matches_roles_witness:
  "\<exists>events st' addresses.
     assignRolesCallback threeShards quietStore alphabetical freshAssigner (map Some threeServers)
       = (None, events, st')
     \<and> SetAddresses 0 addresses \<in> set events
     \<and> ranges (publishOrder alphabetical) (newRolesOf (version freshAssigner) threeServers)
     \<and> (2 :: 64 word) < numShards threeShards
     \<and> addressesVersion addresses = version freshAssigner
     \<and> dom (addressesMap addresses) = {shard. shard < numShards threeShards}
     \<and> (\<exists>entry. addressesMap addresses 2 = Some entry
           \<and> (\<exists>id' serverRole serverState.
                 (id', serverRole) \<in> set (publishedRoles (version freshAssigner) events)
                 \<and> 2 \<in> Masters serverRole
                 \<and> newServerStatesOf threeServers id' = Some serverState
                 \<and> Master entry = stateAddress serverState)
           \<and> ReplicaAddresses entry =
               {stateAddress serverState |id' serverRole serverState.
                  (id', serverRole) \<in> set (publishedRoles (version freshAssigner) events)
                  \<and> 2 \<in> Replicas serverRole
                  \<and> newServerStatesOf threeServers id' = Some serverState})"
proof -
  from threeServers_run obtain events st' addresses where
    run: "assignRolesCallback threeShards quietStore alphabetical freshAssigner (map Some threeServers)
       = (None, events, st')"
    and set: "SetAddresses 0 addresses \<in> set events"
    by (elim exE conjE) (rule that)
  have rng: "ranges (publishOrder alphabetical) (newRolesOf (version freshAssigner) threeServers)"
    by (auto simp: ranges_def dom_newRolesOf alphabetical_def threeServers_def serverStateOf_def)
  have lt: "(2 :: 64 word) < numShards threeShards" by (simp add: threeShards_def)
  note inst = addresses_snapshot_matches_roles[OF run set rng]
  note entry = inst[THEN conjunct2, THEN conjunct2, rule_format, OF lt]
  show ?thesis
    by (rule exI[of _ events], rule exI[of _ st'], rule exI[of _ addresses])
       (intro conjI run set rng lt inst[THEN conjunct1] inst[THEN conjunct2, THEN conjunct1] entry)
qed

section \<open>Stickiness of the master pass\<close>

lemma masterLoop_append:
  "masterLoop st shardLocations serverOrder q (xs @ ys) s =
     (case masterLoop st shardLocations serverOrder q xs s of
        None \<Rightarrow> None
      | Some s' \<Rightarrow> masterLoop st shardLocations serverOrder q ys s')"
proof (induction xs arbitrary: s)
  case Nil
  then show ?case by simp
next
  case (Cons x xs)
  obtain serverRoles masters rm where s: "s = (serverRoles, masters, rm)" by (cases s) auto
  show ?case unfolding s using Cons.IH by (simp split: option.splits)
qed

lemma shardRange_split:
  assumes "shard < n"
  shows "\<exists>rest. shardRange n = shardRange shard @ shard # rest"
proof -
  from assms have lt: "unat shard < unat n" by (simp add: word_less_nat_alt)
  then have "[0..<unat n] = [0..<unat shard] @ unat shard # [Suc (unat shard)..<unat n]"
    by (metis le0 upt_add_eq_append upt_conv_Cons le_add_diff_inverse less_imp_le_nat)
  then have "shardRange n = shardRange shard @ word_of_nat (unat shard) # map word_of_nat [Suc (unat shard)..<unat n]"
    by (simp add: shardRange_def)
  then show ?thesis by simp
qed

lemma masterLoop_keeps_master:
  assumes loop: "masterLoop st shardLocations serverOrder q shards' (serverRoles, masters, rm)
             = Some (newRoles, newMasters, rm')"
    and "masters shard = Some i" and "shard \<notin> set shards'"
  shows "newMasters shard = Some i"
proof -
  let ?P = "\<lambda>(placed :: shard list) s. case s of (roles, ms, rm1) \<Rightarrow> ms shard = Some i"
  have "?P shards' (newRoles, newMasters, rm')"
  proof (rule masterLoop_invariant[OF loop, where P = ?P and placed = "[]"])
    show "?P [] (serverRoles, masters, rm)" using assms(2) by simp
    show "shards' = [] @ shards'" by simp
  next
    fix placed' :: "shard list" and roles ms rm0 j shard' rest r
    assume P: "?P placed' (roles, ms, rm0)" and split: "shards' = placed' @ shard' # rest"
      and a: "assignMaster roles ms j shard' q rm0 = Some r"
    obtain roles' ms' rm1 where r: "r = (roles', ms', rm1)" by (cases r) auto
    from split assms(3) have ne: "shard' \<noteq> shard" by auto
    from a[unfolded r] have "ms' = ms(shard' \<mapsto> j)" by (rule assignMaster_SomeD)
    with P ne show "?P (placed' @ [shard']) r" unfolding r by simp
  qed
  then show ?thesis by simp
qed

text \<open>
  C5. Let the master pass reach a shard below \<open>numShards\<close> whose previous master is a key
  of the role map, that is, a live server. If at that moment the server holds fewer
  masters than \<open>numShards div n\<close>, or exactly that many while the remainder is not used
  up, and does not hold the shard in either role, then in the assignment that comes out
  of the two passes the shard's master is the previous master. \<open>n\<close> is the number of
  entries of the snapshot.
\<close>

theorem previous_master_is_kept:
  assumes "assignShards a st order n serverStates = Some (newRoles, newMasters, newReplicas)"
    and "shard < numShards a"
    and "oldMasters st shard = Some id'"
    and "masterLoop st (shardLocationsOf serverStates) (masterServerOrder order)
           (unat (numShards a) div n) (shardRange shard)
           (newRolesOf (version st) serverStates, Map.empty, unat (numShards a) mod n)
         = Some (serverRoles, masters, masterRolesRemainder)"
    and "serverRoles id' = Some serverRole"
    and "card (Masters serverRole) < unat (numShards a) div n
         \<or> (card (Masters serverRole) = unat (numShards a) div n \<and> 0 < masterRolesRemainder)"
    and "\<not> hasShard serverRole shard"
  shows "newMasters shard = Some id' \<and> (\<exists>r. newRoles id' = Some r \<and> shard \<in> Masters r)"
proof -
  let ?q = "unat (numShards a) div n"
  from assms(1) obtain roles1 rm1 rm2 where
    m: "masterLoop st (shardLocationsOf serverStates) (masterServerOrder order)
       ?q (shardRange (numShards a))
       (newRolesOf (version st) serverStates, Map.empty, unat (numShards a) mod n)
     = Some (roles1, newMasters, rm1)"
    by (rule assignShards_SomeD)
  from shardRange_split[OF assms(2)] obtain rest where
    split: "shardRange (numShards a) = shardRange shard @ shard # rest" by blast
  from distinct_shardRange[of "numShards a"] split have fresh: "shard \<notin> set rest"
    by (metis distinct_append distinct.simps(2))
  from m[unfolded split masterLoop_append assms(4)]
  have step: "masterLoop st (shardLocationsOf serverStates) (masterServerOrder order) ?q (shard # rest)
                (serverRoles, masters, masterRolesRemainder) = Some (roles1, newMasters, rm1)"
    by simp
  have am: "assignMaster serverRoles masters id' shard ?q masterRolesRemainder
      = Some (serverRoles(id' \<mapsto> serverRole\<lparr>Masters := insert shard (Masters serverRole)\<rparr>),
              masters(shard \<mapsto> id'),
              if card (Masters serverRole) = ?q \<and> masterRolesRemainder > 0
              then masterRolesRemainder - 1 else masterRolesRemainder)"
    using assms(5,6,7) by (auto simp: assignMaster_def)
  have "candidates st (shardLocationsOf serverStates) (masterServerOrder order shard) shard
      = id' # (oldReplicas st shard @ shardLocationsOf serverStates shard @ masterServerOrder order shard)"
    using assms(3) by (simp add: candidates_def)
  with am have tr: "tryAssignMaster serverRoles masters shard ?q masterRolesRemainder
        (candidates st (shardLocationsOf serverStates) (masterServerOrder order shard) shard)
      = Some (serverRoles(id' \<mapsto> serverRole\<lparr>Masters := insert shard (Masters serverRole)\<rparr>),
              masters(shard \<mapsto> id'),
              if card (Masters serverRole) = ?q \<and> masterRolesRemainder > 0
              then masterRolesRemainder - 1 else masterRolesRemainder)"
    by simp
  from step tr have rest: "masterLoop st (shardLocationsOf serverStates) (masterServerOrder order) ?q rest
        (serverRoles(id' \<mapsto> serverRole\<lparr>Masters := insert shard (Masters serverRole)\<rparr>),
         masters(shard \<mapsto> id'),
         if card (Masters serverRole) = ?q \<and> masterRolesRemainder > 0
         then masterRolesRemainder - 1 else masterRolesRemainder) = Some (roles1, newMasters, rm1)"
    by simp
  have nm: "newMasters shard = Some id'"
    by (rule masterLoop_keeps_master[OF rest _ fresh]) simp
  with assignShards_structure(2)[OF assms(1)] have "\<exists>r. newRoles id' = Some r \<and> shard \<in> Masters r"
    unfolding mastersAgree_def by blast
  with nm show ?thesis by simp
qed

theorem previous_master_is_kept_witness:
  "\<exists>newRoles newMasters newReplicas.
     assignShards threeShards rememberingAssigner alphabetical 3 threeServers
       = Some (newRoles, newMasters, newReplicas)
     \<and> (1 :: 64 word) < numShards threeShards
     \<and> oldMasters rememberingAssigner 1 = Some ''C''
     \<and> masterLoop rememberingAssigner (shardLocationsOf threeServers) (masterServerOrder alphabetical)
           (unat (numShards threeShards) div 3) (shardRange 1)
           (newRolesOf (version rememberingAssigner) threeServers, Map.empty,
            unat (numShards threeShards) mod 3)
         = Some ((newRolesOf (version rememberingAssigner) threeServers)
                   (''A'' \<mapsto> \<lparr>roleId = ''A'', roleVersion = 0, Masters = {0}, Replicas = {}\<rparr>),
                 [0 \<mapsto> ''A''], 0)
     \<and> ((newRolesOf (version rememberingAssigner) threeServers)
           (''A'' \<mapsto> \<lparr>roleId = ''A'', roleVersion = 0, Masters = {0}, Replicas = {}\<rparr>)) ''C''
         = Some \<lparr>roleId = ''C'', roleVersion = 0, Masters = {}, Replicas = {}\<rparr>
     \<and> card (Masters \<lparr>roleId = ''C'', roleVersion = 0, Masters = {}, Replicas = {}\<rparr>)
         < unat (numShards threeShards) div 3
     \<and> \<not> hasShard \<lparr>roleId = ''C'', roleVersion = 0, Masters = {}, Replicas = {}\<rparr> 1
     \<and> newMasters 1 = Some ''C''"
proof -
  have "\<exists>r. assignShards threeShards rememberingAssigner alphabetical 3 threeServers = Some r"
    by (simp add: run_defs rememberingAssigner_def)
  then obtain newRoles newMasters newReplicas where
    as: "assignShards threeShards rememberingAssigner alphabetical 3 threeServers
       = Some (newRoles, newMasters, newReplicas)"
    by (elim exE) (metis prod_cases3)
  have lt: "(1 :: 64 word) < numShards threeShards" by (simp add: threeShards_def)
  have om: "oldMasters rememberingAssigner 1 = Some ''C''"
    by (simp add: rememberingAssigner_def freshAssigner_def)
  have pre: "masterLoop rememberingAssigner (shardLocationsOf threeServers) (masterServerOrder alphabetical)
           (unat (numShards threeShards) div 3) (shardRange 1)
           (newRolesOf (version rememberingAssigner) threeServers, Map.empty,
            unat (numShards threeShards) mod 3)
         = Some ((newRolesOf (version rememberingAssigner) threeServers)
                   (''A'' \<mapsto> \<lparr>roleId = ''A'', roleVersion = 0, Masters = {0}, Replicas = {}\<rparr>),
                 [0 \<mapsto> ''A''], 0)"
    by (simp add: run_defs rememberingAssigner_def)
  have live: "((newRolesOf (version rememberingAssigner) threeServers)
           (''A'' \<mapsto> \<lparr>roleId = ''A'', roleVersion = 0, Masters = {0}, Replicas = {}\<rparr>)) ''C''
         = Some \<lparr>roleId = ''C'', roleVersion = 0, Masters = {}, Replicas = {}\<rparr>"
    by (simp add: run_defs rememberingAssigner_def)
  have room: "card (Masters \<lparr>roleId = ''C'', roleVersion = 0, Masters = {}, Replicas = {}\<rparr>)
         < unat (numShards threeShards) div 3"
    by (simp add: threeShards_def)
  have free: "\<not> hasShard \<lparr>roleId = ''C'', roleVersion = 0, Masters = {}, Replicas = {}\<rparr> 1"
    by (simp add: hasShard_def)
  note kept = previous_master_is_kept[OF as lt om pre live disjI1[OF room] free, THEN conjunct1]
  show ?thesis
    by (rule exI[of _ newRoles], rule exI[of _ newMasters], rule exI[of _ newReplicas])
       (intro conjI as lt om pre live room free kept)
qed

section \<open>A pass that fails\<close>

lemma tryAssignMaster_None:
  "tryAssignMaster serverRoles masters shard q rm ids = None \<longleftrightarrow>
     (\<forall>i \<in> set ids. assignMaster serverRoles masters i shard q rm = None)"
  by (induction ids) (auto split: option.splits)

lemma tryAssignReplica_None:
  "tryAssignReplica serverRoles masters replicas shard q rm ids = None \<longleftrightarrow>
     (\<forall>i \<in> set ids. assignReplica serverRoles masters replicas i shard q rm = None)"
  by (induction ids) (auto split: option.splits)

lemma trySwapReplica_None:
  "trySwapReplica serverRoles masters replicas shard q roleOrder shardOrder ids = None \<longleftrightarrow>
     (\<forall>i \<in> set ids. swapReplica serverRoles masters replicas i shard q (roleOrder i) (shardOrder i) = None)"
  by (induction ids) (auto split: option.splits)

lemma shardRange_2: "shardRange 2 = [0, 1]"
proof -
  have "[0..<2] = [0, 1]" by (simp add: eval_nat_numeral)
  then show ?thesis by (simp add: shardRange_def)
qed

lemma twoServers_fail:
  "assignShards twoReplicas freshAssigner twoServerOrder (length twoServers) twoServers = None"
  by (simp add: run_defs twoReplicas_def twoServers_def twoServerOrder_def shardRange_2)

text \<open>
  C8. Take a callback on a non-empty snapshot that gets as far as the two passes: the
  garbage collection, if it ran, returned no error, and the servers are not the ones of
  the last publication. If a pass fails, the callback returns \<open>nil\<close>; apart from the
  deletions of the garbage collection all it does is log \<open>FailedToAssignRoles\<close>, so it
  writes no role record and no addresses snapshot, and it leaves the version and the
  remembered servers, roles, masters and replicas as they were, so that the next snapshot
  is assigned afresh. A pass fails at a shard that every server refuses: the master pass
  when \<open>assignMaster\<close> returns \<open>false\<close> for every id, the replica pass when
  \<open>assignReplica\<close> and \<open>swapReplica\<close> do.
\<close>

theorem failed_assignment_is_not_fatal:
  assumes "serverStates \<noteq> []"
    and "minVersion = minVersionOf (newServerStatesOf serverStates) (map stateId serverStates)"
    and "minVersion > oldMinVersion st \<Longrightarrow> fst (collectRoles client minVersion) = None"
    and "\<not> sameServers (oldServers st) (newServerStatesOf serverStates)"
    and "assignShards a st order (length serverStates) serverStates = None"
  shows "assignRolesCallback a client order st (map Some serverStates) =
           (None,
            (if minVersion > oldMinVersion st then snd (collectRoles client minVersion) else [])
              @ [FailedToAssignRoles],
            (if minVersion > oldMinVersion st then st\<lparr>oldMinVersion := minVersion\<rparr> else st))
     \<and> (\<forall>e \<in> set (fst (snd (assignRolesCallback a client order st (map Some serverStates)))).
            e = FailedToAssignRoles \<or> (\<exists>key. e = Delete key))
     \<and> ((\<forall>i. assignMaster serverRoles masters i shard q rm = None)
          \<longrightarrow> masterLoop st shardLocations serverOrder q (shard # rest) (serverRoles, masters, rm) = None)
     \<and> ((\<forall>i. assignReplica serverRoles masters replicas i shard q rm = None)
          \<and> (\<forall>i roleOrder shardOrder. swapReplica serverRoles masters replicas i shard q roleOrder shardOrder = None)
          \<longrightarrow> replicaLoop st order shardLocations masters q ((replica, shard) # iterations)
                (serverRoles, replicas, rm) = None)"
proof -
  let ?st1 = "if minVersion > oldMinVersion st then st\<lparr>oldMinVersion := minVersion\<rparr> else st"
  have dec: "decodeServerStates (map Some serverStates) = Some serverStates"
    by (simp add: decodeServerStates_Some)
  have ne: "length (map Some serverStates) \<noteq> 0" using assms(1) by simp
  have run: "assignRolesCallback a client order st (map Some serverStates) =
           (None,
            (if minVersion > oldMinVersion st then snd (collectRoles client minVersion) else [])
              @ [FailedToAssignRoles], ?st1)"
  proof (cases "minVersion > oldMinVersion st")
    case True
    with assms(3) obtain gcEvents where c: "collectRoles client minVersion = (None, gcEvents)"
      by (cases "collectRoles client minVersion") auto
    have "assignRolesCallback a client order st (map Some serverStates) =
           (None, gcEvents @ [FailedToAssignRoles], st\<lparr>oldMinVersion := minVersion\<rparr>)"
      using True c assms(2,4,5) ne by (simp add: assignRolesCallback_def dec Let_def)
    with True c show ?thesis by simp
  next
    case False
    have "assignRolesCallback a client order st (map Some serverStates) =
           (None, [FailedToAssignRoles], st)"
      using False assms(2,4,5) ne by (simp add: assignRolesCallback_def dec Let_def)
    with False show ?thesis by simp
  qed
  have ev: "e = FailedToAssignRoles \<or> (\<exists>key. e = Delete key)"
    if "e \<in> set (fst (snd (assignRolesCallback a client order st (map Some serverStates))))" for e
  proof -
    from that run have "e = FailedToAssignRoles \<or> (minVersion > oldMinVersion st \<and> e \<in> set (snd (collectRoles client minVersion)))"
      by (auto split: if_splits)
    then show ?thesis
      using collectRoles_events[of client minVersion "fst (collectRoles client minVersion)"
          "snd (collectRoles client minVersion)" e]
      by auto
  qed
  have m: "masterLoop st shardLocations serverOrder q (shard # rest) (serverRoles, masters, rm) = None"
    if "\<forall>i. assignMaster serverRoles masters i shard q rm = None"
  proof -
    from that have "tryAssignMaster serverRoles masters shard q rm ids = None" for ids
      by (simp add: tryAssignMaster_None)
    then show ?thesis by simp
  qed
  have r: "replicaLoop st order shardLocations masters q ((replica, shard) # iterations)
                (serverRoles, replicas, rm) = None"
    if "(\<forall>i. assignReplica serverRoles masters replicas i shard q rm = None)
          \<and> (\<forall>i roleOrder shardOrder. swapReplica serverRoles masters replicas i shard q roleOrder shardOrder = None)"
  proof -
    from that have "tryAssignReplica serverRoles masters replicas shard q rm ids = None" for ids
      by (simp add: tryAssignReplica_None)
    moreover from that have "trySwapReplica serverRoles masters replicas shard q ro so ids = None" for ro so ids
      by (simp add: trySwapReplica_None)
    ultimately show ?thesis by (simp add: replicaStep_def)
  qed
  from run ev m r show ?thesis by blast
qed

lemma ackedServers_minVersion:
  "minVersionOf (newServerStatesOf ackedServers) (map stateId ackedServers) = 1"
  by (simp add: minVersionOf_def newServerStatesOf_def ackedServers_def serverStateOf_def MaxInt64_def)

lemma staleStore_collect: "collectRoles staleStore 1 = (None, [Delete ''role/A/0''])"
  by (simp add: collectRoles_def staleStore_def emptyRole_def)

lemma ackedServers_fail:
  "assignShards twoReplicas freshAssigner twoServerOrder (length ackedServers) ackedServers = None"
  by (simp add: run_defs twoReplicas_def ackedServers_def twoServerOrder_def shardRange_2)

theorem failed_assignment_is_not_fatal_witness:
  "ackedServers \<noteq> []
   \<and> 1 = minVersionOf (newServerStatesOf ackedServers) (map stateId ackedServers)
   \<and> oldMinVersion freshAssigner < 1
   \<and> fst (collectRoles staleStore 1) = None
   \<and> \<not> sameServers (oldServers freshAssigner) (newServerStatesOf ackedServers)
   \<and> assignShards twoReplicas freshAssigner twoServerOrder (length ackedServers) ackedServers = None
   \<and> assignRolesCallback twoReplicas staleStore twoServerOrder freshAssigner (map Some ackedServers)
       = (None, [Delete ''role/A/0'', FailedToAssignRoles], freshAssigner\<lparr>oldMinVersion := 1\<rparr>)"
proof -
  have ne: "ackedServers \<noteq> []" by (simp add: ackedServers_def)
  have mv: "1 = minVersionOf (newServerStatesOf ackedServers) (map stateId ackedServers)"
    by (simp add: ackedServers_minVersion)
  have old: "oldMinVersion freshAssigner < 1" by (simp add: freshAssigner_def)
  have gc: "fst (collectRoles staleStore 1) = None" by (simp add: staleStore_collect)
  have diff: "\<not> sameServers (oldServers freshAssigner) (newServerStatesOf ackedServers)"
    by (simp add: sameServers_def freshAssigner_def newServerStatesOf_def ackedServers_def
        serverStateOf_def)
  from failed_assignment_is_not_fatal[OF ne mv gc diff ackedServers_fail, THEN conjunct1] old
  have run: "assignRolesCallback twoReplicas staleStore twoServerOrder freshAssigner (map Some ackedServers)
       = (None, [Delete ''role/A/0'', FailedToAssignRoles], freshAssigner\<lparr>oldMinVersion := 1\<rparr>)"
    by (simp add: staleStore_collect)
  show ?thesis by (intro conjI ne mv old gc diff ackedServers_fail run)
qed

section \<open>Garbage collection\<close>

lemma finite_values: "finite {s. \<exists>i \<in> set ids. m i = Some s}"
proof -
  have "{s. \<exists>i \<in> set ids. m i = Some s} \<subseteq> (\<lambda>i. the (m i)) ` set ids" by force
  then show ?thesis by (rule finite_subset) simp
qed

lemma minVersionOf_fold:
  "foldl (\<lambda>minVersion id'.
            case m id' of
              None \<Rightarrow> minVersion
            | Some serverState \<Rightarrow>
                if stateVersion serverState < minVersion then stateVersion serverState else minVersion)
     mv ids
   = Min (insert mv (stateVersion ` {s. \<exists>i \<in> set ids. m i = Some s}))"
proof (induction ids arbitrary: mv)
  case Nil
  then show ?case by simp
next
  case (Cons x xs)
  let ?V = "\<lambda>ids. stateVersion ` {s. \<exists>i \<in> set ids. m i = Some s}"
  have fin: "finite (?V xs)" by (intro finite_imageI finite_values)
  show ?case
  proof (cases "m x")
    case None
    then have "{s. \<exists>i \<in> set (x # xs). m i = Some s} = {s. \<exists>i \<in> set xs. m i = Some s}" by auto
    with None Cons.IH[of mv] show ?thesis by simp
  next
    case (Some s)
    then have V: "{s. \<exists>i \<in> set (x # xs). m i = Some s} = insert s {s. \<exists>i \<in> set xs. m i = Some s}"
      by auto
    have "Min (insert (min (stateVersion s) mv) (?V xs)) = Min (insert mv (insert (stateVersion s) (?V xs)))"
      using fin by (cases "?V xs = {}") (simp_all add: min.commute min.left_commute)
    moreover have "(if stateVersion s < mv then stateVersion s else mv) = min (stateVersion s) mv"
      by (simp add: min_def)
    ultimately show ?thesis using Some Cons.IH[of "min (stateVersion s) mv"] unfolding V by simp
  qed
qed

lemma minVersionOf_Min:
  assumes "serverStates \<noteq> []" and "\<forall>s \<in> set serverStates. stateVersion s \<le> MaxInt64"
  shows "minVersionOf (newServerStatesOf serverStates) (map stateId serverStates)
     = Min (stateVersion ` ran (newServerStatesOf serverStates))"
proof -
  let ?m = "newServerStatesOf serverStates"
  have vals: "{s. \<exists>i \<in> set (map stateId serverStates). ?m i = Some s} = ran ?m"
  proof (rule set_eqI)
    fix s
    have "s \<in> ran ?m \<longleftrightarrow> (\<exists>i. ?m i = Some s)" by (simp add: ran_def)
    also have "\<dots> \<longleftrightarrow> (\<exists>i \<in> dom ?m. ?m i = Some s)" by auto
    also have "\<dots> \<longleftrightarrow> (\<exists>i \<in> set (map stateId serverStates). ?m i = Some s)"
      by (simp only: dom_newServerStatesOf set_map)
    finally show "s \<in> {s. \<exists>i \<in> set (map stateId serverStates). ?m i = Some s} \<longleftrightarrow> s \<in> ran ?m"
      by simp
  qed
  from vals have fold: "minVersionOf ?m (map stateId serverStates) = Min (insert MaxInt64 (stateVersion ` ran ?m))"
    unfolding minVersionOf_def minVersionOf_fold by simp
  have "finite (ran ?m)"
    unfolding vals[symmetric] by (rule finite_values)
  then have fin: "finite (stateVersion ` ran ?m)" by (rule finite_imageI)
  from assms(1) obtain s0 where "s0 \<in> set serverStates" by (cases serverStates) auto
  then have "stateId s0 \<in> dom ?m" by (simp add: dom_newServerStatesOf)
  then obtain s where s: "?m (stateId s0) = Some s" by auto
  then have sr: "s \<in> ran ?m" by (auto simp: ran_def)
  then have ne: "stateVersion ` ran ?m \<noteq> {}" by auto
  from newServerStatesOf_SomeD[OF s] assms(2) have "stateVersion s \<le> MaxInt64" by simp
  moreover have "Min (stateVersion ` ran ?m) \<le> stateVersion s"
    using fin sr by (intro Min_le) auto
  ultimately have "Min (stateVersion ` ran ?m) \<le> MaxInt64" by linarith
  then have "Min (insert MaxInt64 (stateVersion ` ran ?m)) = Min (stateVersion ` ran ?m)"
    unfolding Min_insert[OF fin ne] by (rule min_absorb2)
  with fold show ?thesis by simp
qed

lemma WatchAll_not_nil: "WatchAll snapshots callback \<noteq> None"
  by (induction snapshots) (auto split: option.splits)

lemma WatchAll_errComplete:
  "WatchAll snapshots callback = Some errComplete \<Longrightarrow>
     \<exists>snapshot \<in> set snapshots. callback snapshot = Some errComplete"
  by (induction snapshots) (auto split: option.splits)

lemma frontendCallback_errComplete:
  "frontendCallback minVersion snapshot = Some errComplete \<longleftrightarrow>
     (\<forall>encoded \<in> set snapshot. \<exists>frontendState. encoded = Some frontendState
                                    \<and> minVersion \<le> frontendVersion frontendState)"
  by (induction minVersion snapshot rule: frontendCallback.induct) auto

lemma deleteRoles_below:
  "deleteRoles fails minVersion serverRoles = (err, events) \<Longrightarrow> Delete key \<in> set events \<Longrightarrow>
     \<exists>serverRole. (key, Some serverRole) \<in> set serverRoles \<and> roleVersion serverRole < minVersion"
proof (induction fails minVersion serverRoles arbitrary: err events rule: deleteRoles.induct)
  case (1 fails minVersion)
  then show ?case by simp
next
  case (2 fails minVersion key' rest)
  then show ?case by simp
next
  case (3 fails minVersion key' serverRole rest)
  show ?case
  proof (cases "roleVersion serverRole < minVersion")
    case True
    show ?thesis
    proof (cases "fails (Delete key')")
      case True
      with \<open>roleVersion serverRole < minVersion\<close> 3 show ?thesis by simp
    next
      case False
      obtain err1 events1 where r: "deleteRoles fails minVersion rest = (err1, events1)"
        by (cases "deleteRoles fails minVersion rest") auto
      with 3 True False have ev: "events = Delete key' # events1" by simp
      show ?thesis
      proof (cases "key = key'")
        case True
        with \<open>roleVersion serverRole < minVersion\<close> show ?thesis by auto
      next
        case False
        with ev 3(4) have "Delete key \<in> set events1" by simp
        from 3(1)[OF True \<open>\<not> fails (Delete key')\<close> r this] show ?thesis by auto
      qed
    qed
  next
    case False
    with 3 show ?thesis by auto
  qed
qed

lemma collectRoles_delete:
  assumes "Delete key \<in> set (snd (collectRoles client minVersion))"
  shows "(\<exists>serverRoles serverRole. getAllServerRoles client = Some serverRoles
            \<and> (key, Some serverRole) \<in> set serverRoles \<and> roleVersion serverRole < minVersion)
     \<and> (\<exists>snapshot \<in> set (frontendSnapshots client).
           \<forall>encoded \<in> set snapshot. \<exists>frontendState. encoded = Some frontendState
                                    \<and> minVersion \<le> frontendVersion frontendState)"
proof -
  let ?w = "WatchAll (frontendSnapshots client) (frontendCallback minVersion)"
  have wn: "?w \<noteq> None" by (rule WatchAll_not_nil)
  from assms have w: "?w = Some errComplete"
    using wn by (auto simp: collectRoles_def Let_def split: if_splits)
  from assms w obtain serverRoles where
    g: "getAllServerRoles client = Some serverRoles"
    and d: "Delete key \<in> set (snd (deleteRoles (storeFails client) minVersion serverRoles))"
    by (auto simp: collectRoles_def Let_def split: option.splits)
  from deleteRoles_below[OF surjective_pairing d] g
  have A: "\<exists>serverRoles serverRole. getAllServerRoles client = Some serverRoles
            \<and> (key, Some serverRole) \<in> set serverRoles \<and> roleVersion serverRole < minVersion"
    by blast
  from WatchAll_errComplete[OF w] have B: "\<exists>snapshot \<in> set (frontendSnapshots client).
           \<forall>encoded \<in> set snapshot. \<exists>frontendState. encoded = Some frontendState
                                    \<and> minVersion \<le> frontendVersion frontendState"
    by (simp add: frontendCallback_errComplete)
  from A B show ?thesis by (rule conjI)
qed

lemma publishRoles_no_delete:
  "publishRoles fails v newRoles newServerStates ids addresses = (err, events, addresses')
     \<Longrightarrow> Delete key \<notin> set events"
  using publishRoles_only_roles[of fails v newRoles newServerStates ids addresses err events addresses' "Delete key"]
  by auto

lemma assignRolesCallback_deletes:
  assumes run: "assignRolesCallback a client order st (map Some serverStates) = (err, events, st')"
    and del: "Delete key \<in> set events"
  shows "minVersionOf (newServerStatesOf serverStates) (map stateId serverStates) > oldMinVersion st
     \<and> Delete key \<in> set (snd (collectRoles client
           (minVersionOf (newServerStatesOf serverStates) (map stateId serverStates))))"
proof -
  let ?nss = "newServerStatesOf serverStates"
  let ?mv = "minVersionOf (newServerStatesOf serverStates) (map stateId serverStates)"
  let ?st1 = "if ?mv > oldMinVersion st then st\<lparr>oldMinVersion := ?mv\<rparr> else st"
  obtain gcErr gcEvents where gc:
    "(if ?mv > oldMinVersion st then collectRoles client ?mv else (None, [])) = (gcErr, gcEvents)"
    by (cases "if ?mv > oldMinVersion st then collectRoles client ?mv else (None, [])") auto
  have ne: "serverStates \<noteq> []" using run del by (auto simp: assignRolesCallback_def)
  have dec: "decodeServerStates (map Some serverStates) = Some serverStates"
    by (simp add: decodeServerStates_Some)
  from run ne have run': "(if gcErr \<noteq> None then (gcErr, gcEvents, ?st1)
      else if sameServers (oldServers ?st1) ?nss then (None, gcEvents, ?st1)
      else (case assignShards a ?st1 order (length serverStates) serverStates of
              None \<Rightarrow> (None, gcEvents @ [FailedToAssignRoles], ?st1)
            | Some (newRoles, newMasters, newReplicas) \<Rightarrow>
                (case publishRoles (storeFails client) (version ?st1) newRoles ?nss
                        (publishOrder order) (emptyAddresses a) of
                   (Some err, events, addresses) \<Rightarrow> (Some err, gcEvents @ events, ?st1)
                 | (None, events, addresses) \<Rightarrow>
                     (let snapshot = \<lparr>addressesVersion = version ?st1, addressesMap = addresses\<rparr>
                      in if storeFails client (SetAddresses (version ?st1) snapshot)
                         then (Some StoreError, gcEvents @ events, ?st1)
                         else (None, gcEvents @ events @ [SetAddresses (version ?st1) snapshot],
                               ?st1\<lparr>version := version ?st1 + 1,
                                   oldServers := dom ?nss,
                                   oldRoles := newRoles,
                                   oldMasters := newMasters,
                                   oldReplicas := newReplicas\<rparr>))))) = (err, events, st')"
    unfolding assignRolesCallback_def dec Let_def
    by (simp only: length_map list.size(3) length_0_conv option.case prod.case gc if_False)
  have "Delete key \<in> set gcEvents"
  proof (rule ccontr)
    assume n: "Delete key \<notin> set gcEvents"
    show False
    proof (cases "gcErr \<noteq> None \<or> sameServers (oldServers ?st1) ?nss")
      case True
      with run' have "events = gcEvents" by (auto split: if_splits)
      with n del show False by simp
    next
      case False
      show False
      proof (cases "assignShards a ?st1 order (length serverStates) serverStates")
        case None
        with run' False have "events = gcEvents @ [FailedToAssignRoles]" by auto
        with n del show False by simp
      next
        case (Some r)
        obtain newRoles newMasters newReplicas where r: "r = (newRoles, newMasters, newReplicas)"
          by (cases r) auto
        obtain perr pev addrs where
          pub: "publishRoles (storeFails client) (version ?st1) newRoles ?nss
                        (publishOrder order) (emptyAddresses a) = (perr, pev, addrs)"
          by (cases "publishRoles (storeFails client) (version ?st1) newRoles ?nss
                        (publishOrder order) (emptyAddresses a)") auto
        from run' False Some r pub
        have "events = gcEvents @ pev
            \<or> (\<exists>snapshot. events = gcEvents @ pev @ [SetAddresses (version ?st1) snapshot])"
          by (cases perr) (auto simp: Let_def split: if_splits)
        with n del publishRoles_no_delete[OF pub, of key] show False by auto
      qed
    qed
  qed
  with gc show ?thesis by (auto split: if_splits)
qed

text \<open>
  C6. Let \<open>minVersion\<close> be the minimum of the versions in the live server states of the
  snapshot (versions being \<open>int64\<close> values). Every role record the callback deletes is a
  record that \<open>GetAll\<close> returned with a version below \<open>minVersion\<close>, and the one-shot watch
  on the frontend states has delivered a snapshot in which every frontend state decodes
  and is at \<open>minVersion\<close> or above: the watch ends with \<open>errComplete\<close> only on such a
  snapshot, and the deletions come after it. A record at \<open>minVersion\<close> or above is not
  deleted (the keys of \<open>GetAll\<close>'s answer being distinct).
\<close>

theorem roles_deleted_only_below_minimum:
  assumes "assignRolesCallback a client order st (map Some serverStates) = (err, events, st')"
    and "Delete key \<in> set events"
    and "\<forall>s \<in> set serverStates. stateVersion s \<le> MaxInt64"
    and "minVersion = Min (stateVersion ` ran (newServerStatesOf serverStates))"
  shows "(\<exists>serverRoles serverRole. getAllServerRoles client = Some serverRoles
            \<and> (key, Some serverRole) \<in> set serverRoles \<and> roleVersion serverRole < minVersion)
     \<and> (\<exists>snapshot \<in> set (frontendSnapshots client).
           \<forall>encoded \<in> set snapshot. \<exists>frontendState. encoded = Some frontendState
                                    \<and> minVersion \<le> frontendVersion frontendState)
     \<and> (\<forall>serverRoles key' serverRole.
           getAllServerRoles client = Some serverRoles \<and> distinct (map fst serverRoles)
           \<and> (key', Some serverRole) \<in> set serverRoles \<and> minVersion \<le> roleVersion serverRole
           \<longrightarrow> Delete key' \<notin> set events)"
proof -
  have ne: "serverStates \<noteq> []" using assms(1,2) by (auto simp: assignRolesCallback_def)
  have mv: "minVersion = minVersionOf (newServerStatesOf serverStates) (map stateId serverStates)"
    using minVersionOf_Min[OF ne assms(3)] assms(4) by simp
  from assignRolesCallback_deletes[OF assms(1,2)]
  have "Delete key \<in> set (snd (collectRoles client minVersion))" unfolding mv by simp
  note AB = collectRoles_delete[OF this]
  have C: "Delete key' \<notin> set events"
    if g: "getAllServerRoles client = Some serverRoles" and d: "distinct (map fst serverRoles)"
      and k: "(key', Some serverRole) \<in> set serverRoles" and v: "minVersion \<le> roleVersion serverRole"
    for serverRoles key' serverRole
  proof
    assume "Delete key' \<in> set events"
    from assignRolesCallback_deletes[OF assms(1) this]
    have "Delete key' \<in> set (snd (collectRoles client minVersion))" unfolding mv by simp
    from collectRoles_delete[OF this, THEN conjunct1] g obtain serverRole' where
      k': "(key', Some serverRole') \<in> set serverRoles" and v': "roleVersion serverRole' < minVersion"
      by auto
    from d k k' have "Some serverRole = Some serverRole'"
      by (meson eq_key_imp_eq_value)
    with v v' show False by simp
  qed
  from AB C show ?thesis by blast
qed

lemma ackedServers_run:
  "assignRolesCallback twoReplicas staleStore twoServerOrder freshAssigner (map Some ackedServers)
     = (None, [Delete ''role/A/0'', FailedToAssignRoles], freshAssigner\<lparr>oldMinVersion := 1\<rparr>)"
proof -
  have dec: "decodeServerStates (map Some ackedServers) = Some ackedServers"
    by (simp add: decodeServerStates_Some)
  have ne: "length (map Some ackedServers) \<noteq> 0" by (simp add: ackedServers_def)
  have diff: "\<not> sameServers (oldServers (freshAssigner\<lparr>oldMinVersion := 1\<rparr>)) (newServerStatesOf ackedServers)"
    by (simp add: sameServers_def freshAssigner_def newServerStatesOf_def ackedServers_def
        serverStateOf_def)
  have old: "oldMinVersion freshAssigner < 1" by (simp add: freshAssigner_def)
  show ?thesis
    using ne old diff ackedServers_fail staleStore_collect
    by (simp add: assignRolesCallback_def dec Let_def ackedServers_minVersion)
qed

theorem roles_deleted_only_below_minimum_witness:
  "assignRolesCallback twoReplicas staleStore twoServerOrder freshAssigner (map Some ackedServers)
     = (None, [Delete ''role/A/0'', FailedToAssignRoles], freshAssigner\<lparr>oldMinVersion := 1\<rparr>)
   \<and> Delete ''role/A/0'' \<in> set [Delete ''role/A/0'', FailedToAssignRoles]
   \<and> stateVersion (serverStateOf ''A'' 1) \<le> MaxInt64
   \<and> stateVersion (serverStateOf ''B'' 1) \<le> MaxInt64
   \<and> 1 = Min (stateVersion ` ran (newServerStatesOf ackedServers))
   \<and> (\<exists>serverRoles serverRole. getAllServerRoles staleStore = Some serverRoles
         \<and> (''role/A/0'', Some serverRole) \<in> set serverRoles \<and> roleVersion serverRole < 1)
   \<and> (\<exists>snapshot \<in> set (frontendSnapshots staleStore).
         \<forall>encoded \<in> set snapshot. \<exists>frontendState. encoded = Some frontendState
                                  \<and> 1 \<le> frontendVersion frontendState)
   \<and> Delete ''role/A/1'' \<notin> set [Delete ''role/A/0'', FailedToAssignRoles]"
proof -
  have del: "Delete ''role/A/0'' \<in> set [Delete ''role/A/0'', FailedToAssignRoles]" by simp
  have bA: "stateVersion (serverStateOf ''A'' 1) \<le> MaxInt64"
    and bB: "stateVersion (serverStateOf ''B'' 1) \<le> MaxInt64"
    by (simp_all add: serverStateOf_def MaxInt64_def)
  then have bound: "\<forall>s \<in> set ackedServers. stateVersion s \<le> MaxInt64"
    by (simp add: ackedServers_def)
  have ne: "ackedServers \<noteq> []" by (simp add: ackedServers_def)
  have mn: "1 = Min (stateVersion ` ran (newServerStatesOf ackedServers))"
    using minVersionOf_Min[OF ne bound] ackedServers_minVersion by simp
  note inst = roles_deleted_only_below_minimum[OF ackedServers_run del bound mn]
  have g: "getAllServerRoles staleStore
      = Some [(''role/A/0'', Some (emptyRole 0)), (''role/A/1'', Some (emptyRole 1))]"
    by (simp add: staleStore_def)
  have "getAllServerRoles staleStore
        = Some [(''role/A/0'', Some (emptyRole 0)), (''role/A/1'', Some (emptyRole 1))]
      \<and> distinct (map fst [(''role/A/0'', Some (emptyRole 0)), (''role/A/1'', Some (emptyRole 1))])
      \<and> (''role/A/1'', Some (emptyRole 1))
          \<in> set [(''role/A/0'', Some (emptyRole 0)), (''role/A/1'', Some (emptyRole 1))]
      \<and> 1 \<le> roleVersion (emptyRole 1)"
    using g by (simp add: emptyRole_def)
  from inst[THEN conjunct2, THEN conjunct2, rule_format, OF this]
  have kept: "Delete ''role/A/1'' \<notin> set [Delete ''role/A/0'', FailedToAssignRoles]" .
  show ?thesis
    by (intro conjI ackedServers_run del bA bB mn inst[THEN conjunct1]
        inst[THEN conjunct2, THEN conjunct1] kept)
qed

end
